theory Spec2Isabelle
  imports Main "HOL-Library.Sublist" "HOL-Library.Word"
begin

section \<open>Strings of the worker\<close>

text \<open>
  The worker (\<^verbatim>\<open>src/worker/proxy.js\<close>) is a text rewriter. A JavaScript string is
  modelled as the list of its Unicode code points. Every string the worker handles comes
  out of a UTF-8 decoder (\<^verbatim>\<open>response.text()\<close>, \<^verbatim>\<open>searchParams.get\<close>), out of the URL
  serialiser or out of a literal, so it has no unpaired surrogate, and no operation used
  by the worker (\<^verbatim>\<open>startsWith\<close>, \<^verbatim>\<open>includes\<close>, \<^verbatim>\<open>split\<close>, \<^verbatim>\<open>trim\<close>, \<^verbatim>\<open>replace\<close> with
  patterns made of ASCII delimiters, concatenation) tells code units from code points.
  A header value is a byte string, read as code points below 256.
\<close>

type_synonym jschar = nat
type_synonym jsstring = "jschar list"

abbreviation js :: "string \<Rightarrow> jsstring" where
  "js s \<equiv> map of_char s"

definition startsWith :: "jsstring \<Rightarrow> jsstring \<Rightarrow> bool" where
  "startsWith s p = prefix p s"

text \<open>\<^verbatim>\<open>s.includes(p)\<close>: \<open>p\<close> occurs in \<open>s\<close> as a contiguous run.\<close>

fun includesStr :: "jsstring \<Rightarrow> jsstring \<Rightarrow> bool" where
  "includesStr [] p = (p = [])"
| "includesStr (c # cs) p = (prefix p (c # cs) \<or> includesStr cs p)"

subsection \<open>encodeURIComponent\<close>

text \<open>
  \<^verbatim>\<open>encodeURIComponent\<close> keeps the characters \<^verbatim>\<open>A-Z a-z 0-9 - _ . ! ~ * ' ( )\<close> and
  replaces every other code point by the octets of its UTF-8 encoding, each written as
  \<^verbatim>\<open>%XX\<close> with upper-case hexadecimal digits.
\<close>

definition uriUnreserved :: "jschar \<Rightarrow> bool" where
  "uriUnreserved c =
     ((65 \<le> c \<and> c \<le> 90) \<or> (97 \<le> c \<and> c \<le> 122) \<or> (48 \<le> c \<and> c \<le> 57) \<or>
      c \<in> set (js ''-_.!~*()'') \<or> c = 39)"

definition hexDigit :: "nat \<Rightarrow> jschar" where
  "hexDigit n = (if n < 10 then 48 + n else 55 + n)"

definition percentOctet :: "nat \<Rightarrow> jsstring" where
  "percentOctet b = [37, hexDigit ((b div 16) mod 16), hexDigit (b mod 16)]"

definition utf8 :: "jschar \<Rightarrow> nat list" where
  "utf8 cp =
     (if cp < 0x80 then [cp]
      else if cp < 0x800 then [0xC0 + cp div 64, 0x80 + cp mod 64]
      else if cp < 0x10000 then
        [0xE0 + cp div 4096, 0x80 + (cp div 64) mod 64, 0x80 + cp mod 64]
      else
        [0xF0 + cp div 262144, 0x80 + (cp div 4096) mod 64,
         0x80 + (cp div 64) mod 64, 0x80 + cp mod 64])"

definition encodeChar :: "jschar \<Rightarrow> jsstring" where
  "encodeChar c = (if uriUnreserved c then [c] else concat (map percentOctet (utf8 c)))"

definition encodeURIComponent :: "jsstring \<Rightarrow> jsstring" where
  "encodeURIComponent s = concat (map encodeChar s)"

section \<open>The URL resolver\<close>

definition PROXY_URL :: jsstring where
  "PROXY_URL = js ''https://tv-proxy.shariflii.workers.dev''"

text \<open>\<^verbatim>\<open>proxyUrl(originalUrl, baseUrl)\<close>, lines 88 to 101.\<close>

definition proxyUrl :: "jsstring \<Rightarrow> jsstring \<Rightarrow> jsstring" where
  "proxyUrl originalUrl baseUrl =
     (let absolute =
        (if startsWith originalUrl (js ''//'') then js ''https:'' @ originalUrl
         else if startsWith originalUrl (js ''/'') then baseUrl @ originalUrl
         else if startsWith originalUrl (js ''http'') then originalUrl
         else baseUrl @ js ''/'' @ originalUrl)
      in PROXY_URL @ js ''/?url='' @ encodeURIComponent absolute)"

text \<open>
  The resolver as the specification words it: a ProxiedURL is the proxy's base endpoint
  with the percent-encoded absolute URL as its \<^verbatim>\<open>url\<close> parameter, and the absolute URL
  is chosen by four cases in priority order.
\<close>

definition proxyEndpoint :: "jsstring \<Rightarrow> jsstring" where
  "proxyEndpoint u = js ''https://tv-proxy.shariflii.workers.dev/?url='' @ encodeURIComponent u"

datatype refKind = ProtocolRelative | SiteAbsolute | AlreadyAbsolute | DocumentRelative

fun refKindOf :: "jsstring \<Rightarrow> refKind" where
  "refKindOf (c # d # r) =
     (if c = 47 \<and> d = 47 then ProtocolRelative
      else if c = 47 then SiteAbsolute
      else if prefix (js ''http'') (c # d # r) then AlreadyAbsolute
      else DocumentRelative)"
| "refKindOf [c] = (if c = 47 then SiteAbsolute else DocumentRelative)"
| "refKindOf [] = DocumentRelative"

fun resolveSpec :: "refKind \<Rightarrow> jsstring \<Rightarrow> jsstring \<Rightarrow> jsstring" where
  "resolveSpec ProtocolRelative r b = js ''https:'' @ r"
| "resolveSpec SiteAbsolute r b = b @ r"
| "resolveSpec AlreadyAbsolute r b = r"
| "resolveSpec DocumentRelative r b = b @ js ''/'' @ r"

section \<open>Regular expressions and string methods used by the rewriters\<close>

text \<open>
  The three regular expressions of the worker carry the flags \<^verbatim>\<open>gi\<close>. Without the
  \<^verbatim>\<open>u\<close> flag, case-insensitive matching never identifies a character above 127 with an
  ASCII one, so a pattern letter matches exactly its two ASCII cases.
\<close>

definition asciiUpper :: "jschar \<Rightarrow> jschar" where
  "asciiUpper c = (if 97 \<le> c \<and> c \<le> 122 then c - 32 else c)"

fun ciPrefix :: "jsstring \<Rightarrow> jsstring \<Rightarrow> bool" where
  "ciPrefix [] s = True"
| "ciPrefix (p # ps) [] = False"
| "ciPrefix (p # ps) (c # cs) = (asciiUpper c = asciiUpper p \<and> ciPrefix ps cs)"

definition isQuote :: "jschar \<Rightarrow> bool" where
  "isQuote c = (c = 34 \<or> c = 39)"

text \<open>
  The class \<^verbatim>\<open>\s\<close> and \<^verbatim>\<open>trim\<close> share one set: the WhiteSpace and LineTerminator
  code points of ECMAScript.
\<close>

definition isWhiteSpace :: "jschar \<Rightarrow> bool" where
  "isWhiteSpace c =
     (c \<in> {0x09, 0x0A, 0x0B, 0x0C, 0x0D, 0x20, 0xA0, 0x1680, 0x2028, 0x2029,
            0x202F, 0x205F, 0x3000, 0xFEFF} \<or> (0x2000 \<le> c \<and> c \<le> 0x200A))"

definition trim :: "jsstring \<Rightarrow> jsstring" where
  "trim s = rev (dropWhile isWhiteSpace (rev (dropWhile isWhiteSpace s)))"

text \<open>\<^verbatim>\<open>s.split(/\s+/)\<close>: the pieces between maximal runs of white space.\<close>

function splitWs :: "jsstring \<Rightarrow> jsstring list" where
  "splitWs s =
     (case dropWhile (\<lambda>c. \<not> isWhiteSpace c) s of
        [] \<Rightarrow> [s]
      | w # r \<Rightarrow> takeWhile (\<lambda>c. \<not> isWhiteSpace c) s # splitWs (dropWhile isWhiteSpace r))"
  by pat_completeness auto
termination
proof (relation "measure length")
  show "wf (measure length)" by simp
next
  fix s :: jsstring and w r
  assume a: "dropWhile (\<lambda>c. \<not> isWhiteSpace c) s = w # r"
  have "length (dropWhile isWhiteSpace r) \<le> length r"
    by (rule length_dropWhile_le)
  moreover have "length (w # r) \<le> length s"
    using length_dropWhile_le [of "\<lambda>c. \<not> isWhiteSpace c" s] a by simp
  ultimately show "(dropWhile isWhiteSpace r, s) \<in> measure length" by simp
qed

declare splitWs.simps [simp del]

text \<open>\<^verbatim>\<open>s.split(',')\<close>, for any one-character separator \<open>d\<close>.\<close>

function splitOn :: "jschar \<Rightarrow> jsstring \<Rightarrow> jsstring list" where
  "splitOn d s =
     (case dropWhile (\<lambda>c. c \<noteq> d) s of
        [] \<Rightarrow> [s]
      | w # r \<Rightarrow> takeWhile (\<lambda>c. c \<noteq> d) s # splitOn d r)"
  by pat_completeness auto
termination
proof (relation "measure (\<lambda>(d, s). length s)")
  show "wf (measure (\<lambda>(d :: jschar, s :: jsstring). length s))" by simp
next
  fix d :: jschar and s :: jsstring and w r
  assume a: "dropWhile (\<lambda>c. c \<noteq> d) s = w # r"
  have "length (w # r) \<le> length s"
    using length_dropWhile_le [of "\<lambda>c. c \<noteq> d" s] a by simp
  then show "((d, r), (d, s)) \<in> measure (\<lambda>(d, s). length s)" by simp
qed

declare splitOn.simps [simp del]

text \<open>\<^verbatim>\<open>xs.join(sep)\<close>.\<close>

fun join :: "jsstring \<Rightarrow> jsstring list \<Rightarrow> jsstring" where
  "join sep [] = []"
| "join sep [x] = x"
| "join sep (x # y # ys) = x @ sep @ join sep (y # ys)"

text \<open>
  \<^verbatim>\<open>s.replace(re, f)\<close> for a global regular expression \<open>re\<close> and a function \<open>f\<close>. The
  matcher \<open>m\<close> stands for one attempt of \<open>re\<close> at the head of the remaining text: it
  gives the captures and the number of characters matched. The scan copies a character
  where no match starts and resumes after a match where one does; after an empty match
  it moves on by one character.
\<close>

fun replaceAll ::
  "(jsstring \<Rightarrow> ('g \<times> nat) option) \<Rightarrow> (jsstring \<Rightarrow> 'g \<Rightarrow> jsstring) \<Rightarrow> jsstring \<Rightarrow> jsstring" where
  "replaceAll m f [] = (case m [] of None \<Rightarrow> [] | Some (g, n) \<Rightarrow> f [] g)"
| "replaceAll m f (c # cs) =
     (case m (c # cs) of
        None \<Rightarrow> c # replaceAll m f cs
      | Some (g, n) \<Rightarrow>
          if n = 0 then f [] g @ c # replaceAll m f cs
          else f (take n (c # cs)) g @ replaceAll m f (drop n (c # cs)))"

text \<open>
  \<^verbatim>\<open>s.replace(p, r)\<close> for a string pattern \<open>p\<close>: the first occurrence only. The
  replacement strings of the worker contain no \<^verbatim>\<open>$\<close>, so they are inserted as they are.
\<close>

fun replaceFirst :: "jsstring \<Rightarrow> jsstring \<Rightarrow> jsstring \<Rightarrow> jsstring" where
  "replaceFirst [] p r = (if p = [] then r else [])"
| "replaceFirst (c # cs) p r =
     (if prefix p (c # cs) then r @ drop (length p) (c # cs) else c # replaceFirst cs p r)"

text \<open>The tail \<^verbatim>\<open>["']([^"']+)["']\<close> shared by the two HTML patterns.\<close>

definition matchQuoted :: "jsstring \<Rightarrow> (jsstring \<times> nat) option" where
  "matchQuoted s =
     (case s of
        [] \<Rightarrow> None
      | q # t \<Rightarrow>
          if isQuote q then
            (let v = takeWhile (\<lambda>c. \<not> isQuote c) t in
             case drop (length v) t of
               [] \<Rightarrow> None
             | q' # _ \<Rightarrow> if v \<noteq> [] \<and> isQuote q' then Some (v, length v + 2) else None)
          else None)"

text \<open>\<^verbatim>\<open>/(src|href)=["']([^"']+)["']/gi\<close>: the captures are the attribute name and the value.\<close>

definition attrName :: "jsstring \<Rightarrow> jsstring option" where
  "attrName s =
     (if ciPrefix (js ''src'') s then Some (take 3 s)
      else if ciPrefix (js ''href'') s then Some (take 4 s)
      else None)"

definition matchAttr :: "jsstring \<Rightarrow> ((jsstring \<times> jsstring) \<times> nat) option" where
  "matchAttr s =
     (case attrName s of
        None \<Rightarrow> None
      | Some attr \<Rightarrow>
          (case drop (length attr) s of
             [] \<Rightarrow> None
           | e # t \<Rightarrow>
               if e = 61 then
                 (case matchQuoted t of
                    None \<Rightarrow> None
                  | Some (url, n) \<Rightarrow> Some ((attr, url), length attr + 1 + n))
               else None))"

text \<open>\<^verbatim>\<open>/srcset=["']([^"']+)["']/gi\<close>.\<close>

definition matchSrcset :: "jsstring \<Rightarrow> (jsstring \<times> nat) option" where
  "matchSrcset s =
     (if ciPrefix (js ''srcset='') s then
        (case matchQuoted (drop 7 s) of
           None \<Rightarrow> None
         | Some (srcset, n) \<Rightarrow> Some (srcset, 7 + n))
      else None)"

text \<open>
  \<^verbatim>\<open>/url\(["']?([^)"']+)["']?\)/gi\<close>. The argument is the longest run free of \<^verbatim>\<open>)\<close>,
  \<^verbatim>\<open>"\<close> and \<^verbatim>\<open>'\<close>; a shorter run would be followed by a character of the run, which
  neither the optional quote nor \<^verbatim>\<open>\)\<close> accepts, and a quote that is present cannot be
  left to the argument, so backtracking finds no other match.
\<close>

definition isCssDelim :: "jschar \<Rightarrow> bool" where
  "isCssDelim c = (c = 41 \<or> c = 34 \<or> c = 39)"

definition optQuote :: "jsstring \<Rightarrow> nat" where
  "optQuote s = (case s of [] \<Rightarrow> 0 | q # _ \<Rightarrow> if isQuote q then 1 else 0)"

definition matchCssUrl :: "jsstring \<Rightarrow> (jsstring \<times> nat) option" where
  "matchCssUrl s =
     (if ciPrefix (js ''url('') s then
        (let t = drop (optQuote (drop 4 s)) (drop 4 s);
             url = takeWhile (\<lambda>c. \<not> isCssDelim c) t;
             r = drop (length url) t
         in case drop (optQuote r) r of
              [] \<Rightarrow> None
            | p # _ \<Rightarrow>
                if url \<noteq> [] \<and> p = 41
                then Some (url, 4 + optQuote (drop 4 s) + length url + optQuote r + 1)
                else None)
      else None)"

section \<open>The rewriters\<close>

text \<open>\<^verbatim>\<open>rewriteCss(css, baseUrl)\<close>, lines 134 to 140.\<close>

definition cssReplacer :: "jsstring \<Rightarrow> jsstring \<Rightarrow> jsstring \<Rightarrow> jsstring" where
  "cssReplacer baseUrl match url =
     (if startsWith url (js ''data:'') then match
      else js ''url(\"'' @ proxyUrl url baseUrl @ js ''\")'')"

definition rewriteCss :: "jsstring \<Rightarrow> jsstring \<Rightarrow> jsstring" where
  "rewriteCss css baseUrl = replaceAll matchCssUrl (cssReplacer baseUrl) css"

text \<open>The callback of the first pass of \<^verbatim>\<open>rewriteHtml\<close>, lines 108 to 113.\<close>

definition attrReplacer :: "jsstring \<Rightarrow> jsstring \<Rightarrow> jsstring \<times> jsstring \<Rightarrow> jsstring" where
  "attrReplacer baseUrl match g =
     (case g of (attr, url) \<Rightarrow>
        if startsWith url (js ''data:'') \<or> startsWith url (js ''javascript:'') \<or>
           startsWith url (js ''#'')
        then match
        else attr @ js ''=\"'' @ proxyUrl url baseUrl @ js ''\"'')"

text \<open>
  The callback of the second pass, lines 116 to 122. The destructuring
  \<^verbatim>\<open>const [url, size] = ...\<close> takes the first two pieces; \<^verbatim>\<open>split\<close> never returns an
  empty array, and a missing second piece is \<^verbatim>\<open>undefined\<close>, replaced by the empty string.
\<close>

definition srcsetCandidate :: "jsstring \<Rightarrow> jsstring \<Rightarrow> jsstring" where
  "srcsetCandidate baseUrl part =
     (let pieces = splitWs (trim part);
          url = (case pieces of [] \<Rightarrow> [] | u # _ \<Rightarrow> u);
          size = (case pieces of _ # z # _ \<Rightarrow> z | _ \<Rightarrow> [])
      in trim (proxyUrl url baseUrl @ js '' '' @ size))"

definition srcsetReplacer :: "jsstring \<Rightarrow> jsstring \<Rightarrow> jsstring \<Rightarrow> jsstring" where
  "srcsetReplacer baseUrl match srcset =
     (let rewritten = join (js '', '') (map (srcsetCandidate baseUrl) (splitOn 44 srcset))
      in js ''srcset=\"'' @ rewritten @ js ''\"'')"

definition fixScript :: jsstring where
  "fixScript =
     js ''<script>(function(){try{history.pushState=history.replaceState=function(){};}catch(e){}})();</script>''"

text \<open>The injection of the fix script, lines 124 to 129.\<close>

definition injectFixScript :: "jsstring \<Rightarrow> jsstring" where
  "injectFixScript html =
     (if includesStr html (js ''<head>'')
      then replaceFirst html (js ''<head>'') (js ''<head>'' @ fixScript)
      else if includesStr html (js ''<HEAD>'')
      then replaceFirst html (js ''<HEAD>'') (js ''<HEAD>'' @ fixScript)
      else html)"

text \<open>The two rewriting passes of \<^verbatim>\<open>rewriteHtml\<close>, lines 107 to 122.\<close>

definition rewriteReferences :: "jsstring \<Rightarrow> jsstring \<Rightarrow> jsstring" where
  "rewriteReferences html baseUrl =
     replaceAll matchSrcset (srcsetReplacer baseUrl)
       (replaceAll matchAttr (attrReplacer baseUrl) html)"

text \<open>\<^verbatim>\<open>rewriteHtml(html, baseUrl)\<close>, lines 103 to 132.\<close>

definition rewriteHtml :: "jsstring \<Rightarrow> jsstring \<Rightarrow> jsstring" where
  "rewriteHtml html baseUrl = injectFixScript (rewriteReferences html baseUrl)"

section \<open>Headers\<close>

text \<open>
  A \<^verbatim>\<open>Headers\<close> object is modelled by the list of its name and value pairs. Names are
  HTTP tokens, hence ASCII, and are compared without regard to case. Iterating an
  upstream \<^verbatim>\<open>Headers\<close> object yields one pair per name, the name in lower case, except
  that every \<^verbatim>\<open>Set-Cookie\<close> header is yielded as a pair of its own. The values an
  iteration yields are already normalised, so \<^verbatim>\<open>set\<close> stores them as they are.
\<close>

type_synonym headers = "(jsstring \<times> jsstring) list"

definition asciiLower :: "jschar \<Rightarrow> jschar" where
  "asciiLower c = (if 65 \<le> c \<and> c \<le> 90 then c + 32 else c)"

definition toLowerCase :: "jsstring \<Rightarrow> jsstring" where
  "toLowerCase s = map asciiLower s"

definition sameName :: "jsstring \<Rightarrow> jsstring \<Rightarrow> bool" where
  "sameName a b = (toLowerCase a = toLowerCase b)"

text \<open>
  \<^verbatim>\<open>headers.set(name, value)\<close>: the first header of that name takes the value and the
  others of that name are removed; without one, the pair is appended.
\<close>

fun headersSet :: "headers \<Rightarrow> jsstring \<Rightarrow> jsstring \<Rightarrow> headers" where
  "headersSet [] name value = [(name, value)]"
| "headersSet ((k, v) # hs) name value =
     (if sameName k name then (k, value) # filter (\<lambda>(k', v'). \<not> sameName k' name) hs
      else (k, v) # headersSet hs name value)"

text \<open>
  \<^verbatim>\<open>headers.get(name)\<close>: \<^verbatim>\<open>null\<close> without a header of that name, else the values of
  that name joined by a comma and a space.
\<close>

definition headersGet :: "headers \<Rightarrow> jsstring \<Rightarrow> jsstring option" where
  "headersGet hs name =
     (case filter (\<lambda>(k, v). sameName k name) hs of
        [] \<Rightarrow> None
      | kvs \<Rightarrow> Some (join (js '', '') (map snd kvs)))"

text \<open>\<^verbatim>\<open>corsHeaders()\<close>, lines 67 to 73.\<close>

definition corsHeaders :: headers where
  "corsHeaders =
     [(js ''Access-Control-Allow-Origin'', js ''*''),
      (js ''Access-Control-Allow-Methods'', js ''GET, OPTIONS''),
      (js ''Access-Control-Allow-Headers'', js ''*'')]"

text \<open>\<^verbatim>\<open>cleanHeaders(headers)\<close>, lines 75 to 86: the loop, then the final \<^verbatim>\<open>set\<close>.\<close>

fun cleanLoop :: "headers \<Rightarrow> headers \<Rightarrow> headers" where
  "cleanLoop newHeaders [] = newHeaders"
| "cleanLoop newHeaders ((key, value) # rest) =
     (let k = toLowerCase key in
      if k = js ''x-frame-options'' then cleanLoop newHeaders rest
      else if k = js ''content-security-policy'' then cleanLoop newHeaders rest
      else if k = js ''content-security-policy-report-only'' then cleanLoop newHeaders rest
      else cleanLoop (headersSet newHeaders key value) rest)"

definition cleanHeaders :: "headers \<Rightarrow> headers" where
  "cleanHeaders hs = headersSet (cleanLoop [] hs) (js ''Access-Control-Allow-Origin'') (js ''*'')"

section \<open>The request handler\<close>

text \<open>
  A request is its method, the value of \<^verbatim>\<open>url.searchParams.get('url')\<close> (\<^verbatim>\<open>null\<close> is
  \<open>None\<close>) and the value of \<^verbatim>\<open>request.headers.get('Accept')\<close>. The body of a response is
  absent, a text, or the byte stream of an upstream response.
\<close>

type_synonym bytes = "8 word list"

record request =
  httpMethod :: jsstring
  urlParam :: "jsstring option"
  acceptHeader :: "jsstring option"

datatype body = NoBody | TextBody jsstring | StreamBody bytes

record response =
  status :: nat
  headers :: headers
  body :: body

record upstream =
  upStatus :: nat
  upHeaders :: headers
  upBody :: bytes

text \<open>
  The platform the worker runs on: the URL parser (\<^verbatim>\<open>new URL(s)\<close> throws, with a
  message, or gives the protocol and the host), the network (\<^verbatim>\<open>fetch(url, init)\<close>
  throws, with a message, or gives a response) and the decoder behind
  \<^verbatim>\<open>response.text()\<close>. The handler is verified for every platform.
\<close>

record platform =
  parseURL :: "jsstring \<Rightarrow> jsstring + (jsstring \<times> jsstring)"
  upstreamFetch :: "jsstring \<Rightarrow> headers \<Rightarrow> jsstring + upstream"
  decodeText :: "bytes \<Rightarrow> jsstring"

text \<open>Lines 41 to 59: the dispatch on the content type of the upstream response.\<close>

definition dispatch :: "platform \<Rightarrow> upstream \<Rightarrow> jsstring \<Rightarrow> response" where
  "dispatch pf resp baseUrl =
     (let contentType =
            (case headersGet (upHeaders resp) (js ''content-type'') of
               None \<Rightarrow> [] | Some v \<Rightarrow> v);
          newHeaders = cleanHeaders (upHeaders resp)
      in if includesStr contentType (js ''text/html'') then
           \<lparr>status = upStatus resp, headers = newHeaders,
            body = TextBody (rewriteHtml (decodeText pf (upBody resp)) baseUrl)\<rparr>
         else if includesStr contentType (js ''text/css'') then
           \<lparr>status = upStatus resp, headers = newHeaders,
            body = TextBody (rewriteCss (decodeText pf (upBody resp)) baseUrl)\<rparr>
         else
           \<lparr>status = upStatus resp, headers = newHeaders, body = StreamBody (upBody resp)\<rparr>)"

text \<open>The headers of the upstream request, lines 34 to 38.\<close>

definition requestHeaders :: "request \<Rightarrow> headers" where
  "requestHeaders req =
     [(js ''User-Agent'', js ''Mozilla/5.0 (Windows NT 10.0; Win64; x64) AppleWebKit/537.36''),
      (js ''Accept'',
         (case acceptHeader req of
            None \<Rightarrow> js ''*/*''
          | Some a \<Rightarrow> if a = [] then js ''*/*'' else a)),
      (js ''Accept-Language'', js ''en-US,en;q=0.9'')]"

text \<open>
  The body of the \<^verbatim>\<open>try\<close> block, lines 29 to 59: \<open>Inl\<close> carries the message of the
  exception thrown. The second component lists the upstream fetches performed.
\<close>

definition tryBlock ::
  "platform \<Rightarrow> request \<Rightarrow> jsstring \<Rightarrow> (jsstring + response) \<times> (jsstring \<times> headers) list" where
  "tryBlock pf req targetUrl =
     (case parseURL pf targetUrl of
        Inl message \<Rightarrow> (Inl message, [])
      | Inr (protocol, host) \<Rightarrow>
          (let baseUrl = protocol @ js ''//'' @ host in
           case upstreamFetch pf targetUrl (requestHeaders req) of
             Inl message \<Rightarrow> (Inl message, [(targetUrl, requestHeaders req)])
           | Inr resp \<Rightarrow> (Inr (dispatch pf resp baseUrl), [(targetUrl, requestHeaders req)])))"

text \<open>The handler \<^verbatim>\<open>fetch(request)\<close>, lines 12 to 64.\<close>

definition fetch :: "platform \<Rightarrow> request \<Rightarrow> response \<times> (jsstring \<times> headers) list" where
  "fetch pf req =
     (if httpMethod req = js ''OPTIONS'' then
        (\<lparr>status = 200, headers = corsHeaders, body = NoBody\<rparr>, [])
      else
        (case urlParam req of
           None \<Rightarrow>
             (\<lparr>status = 400, headers = corsHeaders,
               body = TextBody (js ''Missing url parameter'')\<rparr>, [])
         | Some targetUrl \<Rightarrow>
             if targetUrl = [] then
               (\<lparr>status = 400, headers = corsHeaders,
                 body = TextBody (js ''Missing url parameter'')\<rparr>, [])
             else
               (case tryBlock pf req targetUrl of
                  (Inl message, calls) \<Rightarrow>
                    (\<lparr>status = 500, headers = corsHeaders,
                      body = TextBody (js ''Proxy error: '' @ message)\<rparr>, calls)
                | (Inr r, calls) \<Rightarrow> (r, calls))))"

section \<open>Notions used to state the properties\<close>

text \<open>The three header names that the sanitizer removes, in any letter case.\<close>

definition blockedName :: "jsstring \<Rightarrow> bool" where
  "blockedName name =
     (toLowerCase name = js ''x-frame-options'' \<or>
      toLowerCase name = js ''content-security-policy'' \<or>
      toLowerCase name = js ''content-security-policy-report-only'')"

text \<open>The value of the last pair of a given name in an iteration.\<close>

definition lastValue :: "headers \<Rightarrow> jsstring \<Rightarrow> jsstring option" where
  "lastValue hs name =
     (case filter (\<lambda>(k, v). sameName k name) hs of
        [] \<Rightarrow> None
      | kvs \<Rightarrow> Some (snd (last kvs)))"

text \<open>The quoting of a \<^verbatim>\<open>url(...)\<close> argument: none, a double quote or a single quote.\<close>

definition optionalQuotes :: "jsstring set" where
  "optionalQuotes = {[], [34], [39]}"

text \<open>
  A \<^verbatim>\<open>srcset\<close> candidate as the specification words it: the URL is resolved and the
  descriptor, when there is one, follows it after one space.
\<close>

definition candidateSpec :: "jsstring \<Rightarrow> jsstring \<Rightarrow> jsstring" where
  "candidateSpec baseUrl part =
     (case splitWs (trim part) of
        [] \<Rightarrow> proxyUrl [] baseUrl
      | [url] \<Rightarrow> proxyUrl url baseUrl
      | url # descriptor # _ \<Rightarrow> proxyUrl url baseUrl @ js '' '' @ descriptor)"

definition commas :: "jsstring \<Rightarrow> nat" where
  "commas s = length (filter (\<lambda>c. c = 44) s)"

text \<open>
  The left-to-right scan of a global replacement, described by its tokens: \<open>tok t g\<close>
  says that the text \<open>t\<close> is a token with the captured part \<open>g\<close>, and \<open>f t g\<close> is what
  replaces it. Where a token starts it is replaced and the scan resumes after it; where
  none starts one character is copied.
\<close>

inductive scan ::
  "(jsstring \<Rightarrow> 'g \<Rightarrow> bool) \<Rightarrow> (jsstring \<Rightarrow> 'g \<Rightarrow> jsstring) \<Rightarrow> jsstring \<Rightarrow> jsstring \<Rightarrow> bool"
  for tok :: "jsstring \<Rightarrow> 'g \<Rightarrow> bool" and f :: "jsstring \<Rightarrow> 'g \<Rightarrow> jsstring" where
  scan_end: "scan tok f [] []"
| scan_copy:
    "\<not> (\<exists>t g rest. tok t g \<and> c # cs = t @ rest) \<Longrightarrow> scan tok f cs out \<Longrightarrow>
     scan tok f (c # cs) (c # out)"
| scan_token:
    "tok t g \<Longrightarrow> scan tok f rest out \<Longrightarrow> scan tok f (t @ rest) (f t g @ out)"

text \<open>
  A \<^verbatim>\<open>url(...)\<close> token as the regular expression of the CSS rewriter takes it: the
  name in any letter case, an opening parenthesis, an optional quote, a non-empty
  argument free of \<^verbatim>\<open>)\<close>, \<^verbatim>\<open>"\<close> and \<^verbatim>\<open>'\<close>, an optional quote, a closing parenthesis.
  Its replacement leaves a \<^verbatim>\<open>data:\<close> argument alone and writes any other as
  \<^verbatim>\<open>url("ProxiedURL")\<close>.
\<close>

definition cssUrlToken :: "jsstring \<Rightarrow> jsstring \<Rightarrow> bool" where
  "cssUrlToken t arg =
     (\<exists>name q1 q2. t = name @ js ''('' @ q1 @ arg @ q2 @ js '')'' \<and>
        map asciiUpper name = js ''URL'' \<and> q1 \<in> optionalQuotes \<and> q2 \<in> optionalQuotes \<and>
        arg \<noteq> [] \<and> (\<forall>c\<in>set arg. \<not> isCssDelim c))"

definition cssTokenSpec :: "jsstring \<Rightarrow> jsstring \<Rightarrow> jsstring \<Rightarrow> jsstring" where
  "cssTokenSpec baseUrl t arg =
     (if prefix (js ''data:'') arg then t
      else js ''url(\"'' @ proxyUrl arg baseUrl @ js ''\")'')"

text \<open>
  A \<^verbatim>\<open>srcset\<close> attribute as the regular expression of the second pass takes it: the
  name in any letter case, \<^verbatim>\<open>=\<close>, a quote, a non-empty value free of both quote
  characters, a quote. Its replacement is \<^verbatim>\<open>srcset="\<close>, the candidates joined by a comma
  and a space, and \<^verbatim>\<open>"\<close>.
\<close>

definition srcsetToken :: "jsstring \<Rightarrow> jsstring \<Rightarrow> bool" where
  "srcsetToken t v =
     (\<exists>name q1 q2. t = name @ q1 # v @ [q2] \<and>
        map asciiUpper name = js ''SRCSET='' \<and> isQuote q1 \<and> isQuote q2 \<and>
        v \<noteq> [] \<and> (\<forall>c\<in>set v. \<not> isQuote c))"

definition srcsetSpec :: "jsstring \<Rightarrow> jsstring \<Rightarrow> jsstring \<Rightarrow> jsstring" where
  "srcsetSpec baseUrl t v =
     js ''srcset=\"'' @ join (js '', '') (map (candidateSpec baseUrl) (splitOn 44 v)) @ js ''\"''"

section \<open>A concrete platform and concrete requests\<close>

text \<open>
  A platform on which \<^verbatim>\<open>https://e.com/\<close> serves a small page and every other origin is
  unreachable, and whose parser accepts only URLs of that origin.
\<close>

definition examplePage :: upstream where
  "examplePage =
     \<lparr>upStatus = 200,
      upHeaders = [(js ''content-type'', js ''text/html; charset=utf-8'')],
      upBody = map of_char ''<head></head>''\<rparr>"

definition examplePlatform :: platform where
  "examplePlatform =
     \<lparr>parseURL = (\<lambda>u. if startsWith u (js ''https://e.com'')
                       then Inr (js ''https:'', js ''e.com'')
                       else Inl (js ''Invalid URL'')),
      upstreamFetch = (\<lambda>u h. if u = js ''https://e.com/'' then Inr examplePage
                              else Inl (js ''Network connection lost'')),
      decodeText = map unat\<rparr>"

definition exampleRequest :: "string \<Rightarrow> string \<Rightarrow> request" where
  "exampleRequest m u = \<lparr>httpMethod = js m, urlParam = Some (js u), acceptHeader = None\<rparr>"

definition exampleUpstream :: "string \<Rightarrow> string \<Rightarrow> upstream" where
  "exampleUpstream ct b =
     \<lparr>upStatus = 200, upHeaders = [(js ''content-type'', js ct)], upBody = map of_char b\<rparr>"

section \<open>Properties of the URL resolver\<close>

lemmas eval_simps = rewriteHtml_def rewriteReferences_def rewriteCss_def replaceAll.simps
  matchAttr_def attrName_def matchQuoted_def matchSrcset_def matchCssUrl_def optQuote_def
  isQuote_def isCssDelim_def asciiUpper_def attrReplacer_def srcsetReplacer_def
  srcsetCandidate_def cssReplacer_def splitWs.simps splitOn.simps trim_def isWhiteSpace_def
  injectFixScript_def fixScript_def proxyUrl_def startsWith_def encodeURIComponent_def
  encodeChar_def uriUnreserved_def utf8_def percentOctet_def hexDigit_def PROXY_URL_def Let_def

lemma hexDigit_unreserved: "n < 16 \<Longrightarrow> uriUnreserved (hexDigit n)"
  by (simp add: hexDigit_def uriUnreserved_def)

lemma percentOctet_chars: "c \<in> set (percentOctet b) \<Longrightarrow> c = 37 \<or> uriUnreserved c"
  by (auto simp: percentOctet_def hexDigit_unreserved)

lemma encodeChar_chars: "c \<in> set (encodeChar x) \<Longrightarrow> c = 37 \<or> uriUnreserved c"
  by (auto simp: encodeChar_def dest: percentOctet_chars split: if_splits)

lemma encodeURIComponent_chars:
  "c \<in> set (encodeURIComponent s) \<Longrightarrow> c = 37 \<or> uriUnreserved c"
  by (auto simp: encodeURIComponent_def dest: encodeChar_chars)

text \<open>
  C1. For every reference \<open>r\<close> and base origin \<open>b\<close>, \<open>proxyUrl r b\<close> is the proxy
  endpoint applied to the absolute URL that the four-case policy selects: a reference
  beginning with \<^verbatim>\<open>//\<close> gets \<^verbatim>\<open>https:\<close> in front, else one beginning with \<^verbatim>\<open>/\<close> gets
  the base origin in front, else one beginning with \<^verbatim>\<open>http\<close> is used as it is, and any
  other is joined as base, \<^verbatim>\<open>/\<close>, reference; the result is the proxy's base endpoint
  followed by \<^verbatim>\<open>/?url=\<close> and the percent-encoded absolute URL, whose characters are
  all unreserved characters or \<^verbatim>\<open>%\<close>.
\<close>

theorem proxyUrl_four_case_policy:
  "proxyUrl r b = proxyEndpoint (resolveSpec (refKindOf r) r b) \<and>
   proxyUrl r b = PROXY_URL @ js ''/?url='' @ encodeURIComponent (resolveSpec (refKindOf r) r b) \<and>
   (refKindOf r = ProtocolRelative \<longleftrightarrow> startsWith r (js ''//'')) \<and>
   (refKindOf r = SiteAbsolute \<longleftrightarrow> startsWith r (js ''/'') \<and> \<not> startsWith r (js ''//'')) \<and>
   (refKindOf r = AlreadyAbsolute \<longleftrightarrow> startsWith r (js ''http'')) \<and>
   (refKindOf r = DocumentRelative \<longleftrightarrow>
      \<not> startsWith r (js ''/'') \<and> \<not> startsWith r (js ''http'')) \<and>
   set (encodeURIComponent (resolveSpec (refKindOf r) r b)) \<subseteq> {c. c = 37 \<or> uriUnreserved c}"
proof -
  have kinds:
    "(refKindOf r = ProtocolRelative \<longleftrightarrow> startsWith r (js ''//'')) \<and>
     (refKindOf r = SiteAbsolute \<longleftrightarrow> startsWith r (js ''/'') \<and> \<not> startsWith r (js ''//'')) \<and>
     (refKindOf r = AlreadyAbsolute \<longleftrightarrow> startsWith r (js ''http'')) \<and>
     (refKindOf r = DocumentRelative \<longleftrightarrow>
        \<not> startsWith r (js ''/'') \<and> \<not> startsWith r (js ''http''))"
    by (cases r rule: refKindOf.cases) (auto simp: startsWith_def)
  have eq: "proxyUrl r b = PROXY_URL @ js ''/?url='' @ encodeURIComponent (resolveSpec (refKindOf r) r b)"
    by (cases r rule: refKindOf.cases) (auto simp: proxyUrl_def startsWith_def Let_def)
  have ep: "proxyUrl r b = proxyEndpoint (resolveSpec (refKindOf r) r b)"
    by (simp add: eq proxyEndpoint_def PROXY_URL_def)
  have chars: "set (encodeURIComponent (resolveSpec (refKindOf r) r b)) \<subseteq> {c. c = 37 \<or> uriUnreserved c}"
    using encodeURIComponent_chars by blast
  from ep eq kinds chars show ?thesis by blast
qed

theorem proxyUrl_four_case_policy_witness:
  "proxyUrl (js ''//cdn.example/x'') (js ''https://e.com'') = proxyEndpoint (js ''https://cdn.example/x'') \<and>
   proxyUrl (js ''/p'') (js ''https://e.com'') = proxyEndpoint (js ''https://e.com/p'') \<and>
   proxyUrl (js ''http://a.b/c'') (js ''https://e.com'') = proxyEndpoint (js ''http://a.b/c'') \<and>
   proxyUrl (js ''img.png'') (js ''https://e.com'') = proxyEndpoint (js ''https://e.com/img.png'') \<and>
   proxyEndpoint (js ''https://e.com/p'') =
     js ''https://tv-proxy.shariflii.workers.dev/?url=https%3A%2F%2Fe.com%2Fp''"
proof -
  have e: "proxyEndpoint (js ''https://e.com/p'') =
     js ''https://tv-proxy.shariflii.workers.dev/?url=https%3A%2F%2Fe.com%2Fp''"
    by (simp add: proxyEndpoint_def encodeURIComponent_def encodeChar_def uriUnreserved_def
        utf8_def percentOctet_def hexDigit_def)
  from proxyUrl_four_case_policy [of "js ''//cdn.example/x''" "js ''https://e.com''"]
    proxyUrl_four_case_policy [of "js ''/p''" "js ''https://e.com''"]
    proxyUrl_four_case_policy [of "js ''http://a.b/c''" "js ''https://e.com''"]
    proxyUrl_four_case_policy [of "js ''img.png''" "js ''https://e.com''"] e
  show ?thesis by simp
qed

section \<open>Properties of the request handler\<close>

text \<open>
  C9. A request with method \<^verbatim>\<open>OPTIONS\<close> is answered at once, whatever its \<^verbatim>\<open>url\<close>
  parameter: the body is absent, the status is 200, the headers are
  \<^verbatim>\<open>Access-Control-Allow-Origin: *\<close>, \<^verbatim>\<open>Access-Control-Allow-Methods: GET, OPTIONS\<close> and
  \<^verbatim>\<open>Access-Control-Allow-Headers: *\<close>, and no upstream fetch is performed.
\<close>

theorem options_preflight:
  assumes "httpMethod req = js ''OPTIONS''"
  shows "body (fst (fetch pf req)) = NoBody \<and>
         status (fst (fetch pf req)) = 200 \<and>
         headers (fst (fetch pf req)) =
           [(js ''Access-Control-Allow-Origin'', js ''*''),
            (js ''Access-Control-Allow-Methods'', js ''GET, OPTIONS''),
            (js ''Access-Control-Allow-Headers'', js ''*'')] \<and>
         snd (fetch pf req) = []"
  using assms by (simp add: fetch_def corsHeaders_def)

theorem options_preflight_witness:
  "httpMethod (exampleRequest ''OPTIONS'' ''https://e.com/'') = js ''OPTIONS'' \<and>
   fetch examplePlatform (exampleRequest ''OPTIONS'' ''https://e.com/'') =
     (\<lparr>status = 200,
       headers = [(js ''Access-Control-Allow-Origin'', js ''*''),
                  (js ''Access-Control-Allow-Methods'', js ''GET, OPTIONS''),
                  (js ''Access-Control-Allow-Headers'', js ''*'')],
       body = NoBody\<rparr>, [])"
proof -
  have m: "httpMethod (exampleRequest ''OPTIONS'' ''https://e.com/'') = js ''OPTIONS''"
    by (simp add: exampleRequest_def)
  from options_preflight [OF m, of examplePlatform] m show ?thesis
    by (simp add: prod_eq_iff)
qed

text \<open>
  C8. A request whose method is not \<^verbatim>\<open>OPTIONS\<close> and whose \<^verbatim>\<open>url\<close> parameter is missing
  or empty gets status 400, the text \<^verbatim>\<open>Missing url parameter\<close> and the CORS headers, and
  no upstream fetch is performed.
\<close>

theorem missing_url_parameter:
  assumes "httpMethod req \<noteq> js ''OPTIONS''"
    and "urlParam req = None \<or> urlParam req = Some []"
  shows "fetch pf req =
           (\<lparr>status = 400, headers = corsHeaders,
             body = TextBody (js ''Missing url parameter'')\<rparr>, []) \<and>
         headersGet corsHeaders (js ''Access-Control-Allow-Origin'') = Some (js ''*'')"
  using assms
  by (auto simp: fetch_def headersGet_def corsHeaders_def sameName_def toLowerCase_def
      asciiLower_def)

theorem missing_url_parameter_witness:
  "httpMethod (exampleRequest ''GET'' '''') \<noteq> js ''OPTIONS'' \<and>
   urlParam (exampleRequest ''GET'' '''') = Some [] \<and>
   fetch examplePlatform (exampleRequest ''GET'' '''') =
     (\<lparr>status = 400, headers = corsHeaders,
       body = TextBody (js ''Missing url parameter'')\<rparr>, [])"
proof -
  have m: "httpMethod (exampleRequest ''GET'' '''') \<noteq> js ''OPTIONS''"
    by (simp add: exampleRequest_def)
  have u: "urlParam (exampleRequest ''GET'' '''') = None \<or>
           urlParam (exampleRequest ''GET'' '''') = Some []"
    by (simp add: exampleRequest_def)
  from missing_url_parameter [OF m u, of examplePlatform] m show ?thesis
    by (simp add: exampleRequest_def)
qed

text \<open>
  C7, as amended. A request whose method is not \<^verbatim>\<open>OPTIONS\<close> and whose \<^verbatim>\<open>url\<close>
  parameter is present and not empty gets status 500, the text \<^verbatim>\<open>Proxy error: \<close>
  followed by the message of the exception, and the CORS headers, whenever the
  parameter fails to parse as a URL or the upstream fetch throws. An exception of the
  \<^verbatim>\<open>try\<close> block is a result \<open>Inl\<close> of \<open>tryBlock\<close>; the handler turns each into a
  response, so none leaves it.
\<close>

theorem proxy_error_response:
  assumes "httpMethod req \<noteq> js ''OPTIONS''"
    and "urlParam req = Some t" and "t \<noteq> []"
    and "parseURL pf t = Inl message \<or>
         (\<exists>u. parseURL pf t = Inr u \<and> upstreamFetch pf t (requestHeaders req) = Inl message)"
  shows "fst (fetch pf req) =
           \<lparr>status = 500, headers = corsHeaders,
            body = TextBody (js ''Proxy error: '' @ message)\<rparr> \<and>
         fst (tryBlock pf req t) = Inl message"
  using assms by (auto simp: fetch_def tryBlock_def Let_def split: prod.splits)

theorem proxy_error_response_witness:
  "httpMethod (exampleRequest ''GET'' ''nonsense'') \<noteq> js ''OPTIONS'' \<and>
   urlParam (exampleRequest ''GET'' ''nonsense'') = Some (js ''nonsense'') \<and>
   parseURL examplePlatform (js ''nonsense'') = Inl (js ''Invalid URL'') \<and>
   fst (fetch examplePlatform (exampleRequest ''GET'' ''nonsense'')) =
     \<lparr>status = 500, headers = corsHeaders,
      body = TextBody (js ''Proxy error: Invalid URL'')\<rparr> \<and>
   parseURL examplePlatform (js ''https://e.com/gone'') = Inr (js ''https:'', js ''e.com'') \<and>
   upstreamFetch examplePlatform (js ''https://e.com/gone'')
       (requestHeaders (exampleRequest ''GET'' ''https://e.com/gone''))
     = Inl (js ''Network connection lost'') \<and>
   fst (fetch examplePlatform (exampleRequest ''GET'' ''https://e.com/gone'')) =
     \<lparr>status = 500, headers = corsHeaders,
      body = TextBody (js ''Proxy error: Network connection lost'')\<rparr>"
proof -
  have m: "httpMethod (exampleRequest ''GET'' ''nonsense'') \<noteq> js ''OPTIONS''"
    by (simp add: exampleRequest_def)
  have u: "urlParam (exampleRequest ''GET'' ''nonsense'') = Some (js ''nonsense'')"
    by (simp add: exampleRequest_def)
  have n: "js ''nonsense'' \<noteq> []" by simp
  have p: "parseURL examplePlatform (js ''nonsense'') = Inl (js ''Invalid URL'')"
    by (simp add: examplePlatform_def startsWith_def)
  have 1: "fst (fetch examplePlatform (exampleRequest ''GET'' ''nonsense'')) =
     \<lparr>status = 500, headers = corsHeaders,
      body = TextBody (js ''Proxy error: Invalid URL'')\<rparr>"
    using proxy_error_response [OF m u n disjI1 [OF p]] by simp
  let ?r = "exampleRequest ''GET'' ''https://e.com/gone''"
  have m': "httpMethod ?r \<noteq> js ''OPTIONS''"
    by (simp add: exampleRequest_def)
  have u': "urlParam ?r = Some (js ''https://e.com/gone'')"
    by (simp add: exampleRequest_def)
  have n': "js ''https://e.com/gone'' \<noteq> []" by simp
  have p': "parseURL examplePlatform (js ''https://e.com/gone'') = Inr (js ''https:'', js ''e.com'')"
    by (simp add: examplePlatform_def startsWith_def)
  have f': "upstreamFetch examplePlatform (js ''https://e.com/gone'') (requestHeaders ?r)
      = Inl (js ''Network connection lost'')"
    by (simp add: examplePlatform_def)
  have d': "parseURL examplePlatform (js ''https://e.com/gone'') = Inl (js ''Network connection lost'') \<or>
      (\<exists>u. parseURL examplePlatform (js ''https://e.com/gone'') = Inr u \<and>
           upstreamFetch examplePlatform (js ''https://e.com/gone'') (requestHeaders ?r)
             = Inl (js ''Network connection lost''))"
    using p' f' by blast
  have 2: "fst (fetch examplePlatform ?r) =
     \<lparr>status = 500, headers = corsHeaders,
      body = TextBody (js ''Proxy error: Network connection lost'')\<rparr>"
    using proxy_error_response [OF m' u' n' d'] by simp
  from m u p 1 p' f' 2 show ?thesis by blast
qed

theorem proxy_error_counterexample:
  "parseURL examplePlatform (js ''nonsense'') = Inl (js ''Invalid URL'') \<and>
   urlParam (exampleRequest ''OPTIONS'' ''nonsense'') = Some (js ''nonsense'') \<and>
   status (fst (fetch examplePlatform (exampleRequest ''OPTIONS'' ''nonsense''))) = 200 \<and>
   body (fst (fetch examplePlatform (exampleRequest ''OPTIONS'' ''nonsense''))) = NoBody"
  by (simp add: examplePlatform_def startsWith_def exampleRequest_def fetch_def)

section \<open>Properties of the content dispatch\<close>

text \<open>
  C3, as amended. The dispatch tests the \<^verbatim>\<open>Content-Type\<close> value as it was received,
  without changing its case. A value that contains \<^verbatim>\<open>text/html\<close> in exactly these
  lower-case letters goes to the HTML rewriter; otherwise a value that contains
  \<^verbatim>\<open>text/css\<close> in exactly these letters goes to the CSS rewriter; every other value,
  and a missing \<^verbatim>\<open>Content-Type\<close>, gives a body that is the upstream body, byte for byte.
\<close>

theorem dispatch_by_content_type:
  "(\<forall>ct. headersGet (upHeaders resp) (js ''content-type'') = Some ct \<and>
         includesStr ct (js ''text/html'') \<longrightarrow>
         body (dispatch pf resp b) = TextBody (rewriteHtml (decodeText pf (upBody resp)) b)) \<and>
   (\<forall>ct. headersGet (upHeaders resp) (js ''content-type'') = Some ct \<and>
         \<not> includesStr ct (js ''text/html'') \<and> includesStr ct (js ''text/css'') \<longrightarrow>
         body (dispatch pf resp b) = TextBody (rewriteCss (decodeText pf (upBody resp)) b)) \<and>
   (\<forall>ct. headersGet (upHeaders resp) (js ''content-type'') = Some ct \<and>
         \<not> includesStr ct (js ''text/html'') \<and> \<not> includesStr ct (js ''text/css'') \<longrightarrow>
         body (dispatch pf resp b) = StreamBody (upBody resp)) \<and>
   (headersGet (upHeaders resp) (js ''content-type'') = None \<longrightarrow>
         body (dispatch pf resp b) = StreamBody (upBody resp))"
  by (simp add: dispatch_def Let_def)

theorem dispatch_by_content_type_witness:
  "body (dispatch examplePlatform (exampleUpstream ''text/html; charset=utf-8'' ''<p>'') (js ''https://e.com''))
     = TextBody (js ''<p>'') \<and>
   body (dispatch examplePlatform (exampleUpstream ''text/css'' ''p{}'') (js ''https://e.com''))
     = TextBody (js ''p{}'') \<and>
   body (dispatch examplePlatform (exampleUpstream ''image/png'' ''PNG'') (js ''https://e.com''))
     = StreamBody (map of_char ''PNG'') \<and>
   body (dispatch examplePlatform \<lparr>upStatus = 200, upHeaders = [], upBody = map of_char ''PNG''\<rparr>
           (js ''https://e.com''))
     = StreamBody (map of_char ''PNG'')"
proof -
  let ?b = "js ''https://e.com''"
  have g: "\<And>ct bd. headersGet (upHeaders (exampleUpstream ct bd)) (js ''content-type'') = Some (js ct)"
    by (simp add: exampleUpstream_def headersGet_def sameName_def)
  have h: "includesStr (js ''text/html; charset=utf-8'') (js ''text/html'')" by simp
  have c: "\<not> includesStr (js ''text/css'') (js ''text/html'') \<and>
           includesStr (js ''text/css'') (js ''text/css'')" by simp
  have i: "\<not> includesStr (js ''image/png'') (js ''text/html'') \<and>
           \<not> includesStr (js ''image/png'') (js ''text/css'')" by simp
  have n: "headersGet (upHeaders \<lparr>upStatus = 200, upHeaders = [], upBody = map of_char ''PNG''\<rparr>)
             (js ''content-type'') = None"
    by (simp add: headersGet_def)
  have d: "decodeText examplePlatform = map unat" by (simp add: examplePlatform_def)
  have 1: "body (dispatch examplePlatform (exampleUpstream ''text/html; charset=utf-8'' ''<p>'') ?b)
           = TextBody (rewriteHtml (decodeText examplePlatform
               (upBody (exampleUpstream ''text/html; charset=utf-8'' ''<p>''))) ?b)"
    using dispatch_by_content_type
      [of "exampleUpstream ''text/html; charset=utf-8'' ''<p>''" examplePlatform ?b] g h
    by blast
  have 2: "body (dispatch examplePlatform (exampleUpstream ''text/css'' ''p{}'') ?b)
           = TextBody (rewriteCss (decodeText examplePlatform
               (upBody (exampleUpstream ''text/css'' ''p{}''))) ?b)"
    using dispatch_by_content_type [of "exampleUpstream ''text/css'' ''p{}''" examplePlatform ?b] g c
    by blast
  have 3: "body (dispatch examplePlatform (exampleUpstream ''image/png'' ''PNG'') ?b)
           = StreamBody (upBody (exampleUpstream ''image/png'' ''PNG''))"
    using dispatch_by_content_type [of "exampleUpstream ''image/png'' ''PNG''" examplePlatform ?b] g i
    by blast
  have 4: "body (dispatch examplePlatform
                   \<lparr>upStatus = 200, upHeaders = [], upBody = map of_char ''PNG''\<rparr> ?b)
           = StreamBody (upBody \<lparr>upStatus = 200, upHeaders = [], upBody = map of_char ''PNG''\<rparr>)"
    using dispatch_by_content_type
      [of "\<lparr>upStatus = 200, upHeaders = [], upBody = map of_char ''PNG''\<rparr>" examplePlatform ?b] n
    by blast
  have r1: "rewriteHtml (map unat (map of_char ''<p>'' :: bytes)) ?b = js ''<p>''"
    by (simp add: eval_simps)
  have r2: "rewriteCss (map unat (map of_char ''p{}'' :: bytes)) ?b = js ''p{}''"
    by (simp add: eval_simps)
  from 1 2 3 4 r1 r2 d show ?thesis
    by (simp add: exampleUpstream_def)
qed

theorem dispatch_lower_cased_counterexample:
  "headersGet (upHeaders (exampleUpstream ''Text/HTML'' ''<head>'')) (js ''content-type'')
     = Some (js ''Text/HTML'') \<and>
   includesStr (toLowerCase (js ''Text/HTML'')) (js ''text/html'') \<and>
   body (dispatch examplePlatform (exampleUpstream ''Text/HTML'' ''<head>'') (js ''https://e.com''))
     = StreamBody (map of_char ''<head>'') \<and>
   body (dispatch examplePlatform (exampleUpstream ''Text/HTML'' ''<head>'') (js ''https://e.com''))
     \<noteq> TextBody (rewriteHtml (decodeText examplePlatform
          (upBody (exampleUpstream ''Text/HTML'' ''<head>''))) (js ''https://e.com''))"
  by (simp add: exampleUpstream_def headersGet_def sameName_def toLowerCase_def asciiLower_def
      dispatch_def Let_def)

section \<open>Properties of the header sanitizer\<close>

lemma sameName_sym: "sameName a b = sameName b a"
  by (auto simp: sameName_def)

lemma filter_headersSet:
  "filter (\<lambda>(k, v). sameName k n') (headersSet hs n v) =
     (if sameName n' n
      then [(case filter (\<lambda>(k, v). sameName k n) hs of [] \<Rightarrow> n | (k, _) # _ \<Rightarrow> k, v)]
      else filter (\<lambda>(k, v). sameName k n') hs)"
proof (induction hs)
  case Nil
  show ?case by (auto simp: sameName_def)
next
  case (Cons kv hs)
  obtain k w where kv: "kv = (k, w)" by (cases kv)
  show ?case
  proof (cases "sameName k n")
    case True
    have "filter (\<lambda>(k, v). sameName k n') (filter (\<lambda>(k', v'). \<not> sameName k' n) hs) =
          (if sameName n' n then [] else filter (\<lambda>(k, v). sameName k n') hs)"
      by (induction hs) (auto simp: sameName_def)
    with True kv show ?thesis by (auto simp: sameName_def)
  next
    case False
    with kv Cons show ?thesis by (auto simp: sameName_def)
  qed
qed

lemma headersGet_headersSet:
  "headersGet (headersSet hs n v) n' = (if sameName n' n then Some v else headersGet hs n')"
  by (simp add: headersGet_def filter_headersSet)

lemma headersGet_cleanLoop:
  "headersGet (cleanLoop new hs) n =
     (case lastValue (filter (\<lambda>(k, v). \<not> blockedName k) hs) n of
        None \<Rightarrow> headersGet new n
      | Some v \<Rightarrow> Some v)"
proof (induction hs arbitrary: new)
  case Nil
  show ?case by (simp add: lastValue_def)
next
  case (Cons kv hs)
  obtain k w where kv: "kv = (k, w)" by (cases kv)
  show ?case
  proof (cases "blockedName k")
    case True
    with kv Cons show ?thesis by (auto simp: blockedName_def Let_def)
  next
    case False
    then have "cleanLoop new (kv # hs) = cleanLoop (headersSet new k w) hs"
      using kv by (auto simp: blockedName_def Let_def)
    then show ?thesis
      using False kv Cons [of "headersSet new k w"]
      by (auto simp: headersGet_headersSet lastValue_def sameName_sym split: list.splits)
  qed
qed

lemma blockedName_sameName: "sameName a b \<Longrightarrow> blockedName a = blockedName b"
  by (simp add: sameName_def blockedName_def)

lemma lastValue_kept:
  "lastValue (filter (\<lambda>(k, v). \<not> blockedName k) hs) n =
     (if blockedName n then None else lastValue hs n)"
proof -
  have "filter (\<lambda>(k, v). sameName k n) (filter (\<lambda>(k, v). \<not> blockedName k) hs) =
        (if blockedName n then [] else filter (\<lambda>(k, v). sameName k n) hs)"
    by (induction hs) (auto dest: blockedName_sameName)
  then show ?thesis by (simp add: lastValue_def)
qed

lemma headersGet_cleanHeaders:
  "headersGet (cleanHeaders hs) n =
     (if sameName n (js ''Access-Control-Allow-Origin'') then Some (js ''*'')
      else if blockedName n then None
      else lastValue hs n)"
proof -
  have e: "headersGet [] n = None" by (simp add: headersGet_def)
  show ?thesis
    unfolding cleanHeaders_def
    by (simp add: headersGet_headersSet headersGet_cleanLoop lastValue_kept e split: option.splits)
qed

lemma lastValue_distinct:
  "distinct (map (\<lambda>(k, v). toLowerCase k) hs) \<Longrightarrow> lastValue hs n = headersGet hs n"
proof -
  assume d: "distinct (map (\<lambda>(k, v). toLowerCase k) hs)"
  then have "length (filter (\<lambda>(k, v). sameName k n) hs) \<le> 1"
  proof (induction hs)
    case Nil
    then show ?case by simp
  next
    case (Cons kv hs)
    obtain k w where kv: "kv = (k, w)" by (cases kv)
    have "sameName k n \<Longrightarrow> filter (\<lambda>(k, v). sameName k n) hs = []"
      using Cons.prems kv by (auto simp: filter_empty_conv sameName_def image_iff)
    with Cons kv show ?case by auto
  qed
  then show ?thesis
    by (cases "filter (\<lambda>(k, v). sameName k n) hs" rule: list.exhaust; cases "tl (filter (\<lambda>(k, v). sameName k n) hs)")
       (auto simp: lastValue_def headersGet_def)
qed

text \<open>
  When the names of the upstream iteration are pairwise different, whatever their letter
  case, the sanitizer does what is asked of it: the three blocked names are absent,
  \<^verbatim>\<open>Access-Control-Allow-Origin\<close> is \<^verbatim>\<open>*\<close>, and every other name has the value it had.
\<close>

lemma cleanHeaders_distinct_names:
  assumes "distinct (map (\<lambda>(k, v). toLowerCase k) hs)"
  shows "headersGet (cleanHeaders hs) n =
     (if sameName n (js ''Access-Control-Allow-Origin'') then Some (js ''*'')
      else if blockedName n then None
      else headersGet hs n)"
  by (simp only: headersGet_cleanHeaders lastValue_distinct [OF assms])

text \<open>
  C2. The sanitizer is to copy every header other than the three blocked ones with its
  value unchanged. An upstream response with two \<^verbatim>\<open>Set-Cookie\<close> headers is iterated
  as two pairs of the name \<^verbatim>\<open>set-cookie\<close>; the loop stores each with \<^verbatim>\<open>set\<close>, which
  replaces, so the outbound headers keep the second cookie only and the first is lost.
\<close>

theorem cleanHeaders_repeated_set_cookie:
  "cleanHeaders [(js ''set-cookie'', js ''a=1''), (js ''set-cookie'', js ''b=2'')] =
     [(js ''set-cookie'', js ''b=2''), (js ''Access-Control-Allow-Origin'', js ''*'')] \<and>
   headersGet [(js ''set-cookie'', js ''a=1''), (js ''set-cookie'', js ''b=2'')] (js ''set-cookie'')
     = Some (js ''a=1, b=2'') \<and>
   headersGet (cleanHeaders [(js ''set-cookie'', js ''a=1''), (js ''set-cookie'', js ''b=2'')])
     (js ''set-cookie'') = Some (js ''b=2'')"
  by (simp add: cleanHeaders_def headersGet_def sameName_def toLowerCase_def asciiLower_def)

section \<open>Properties of the CSS rewriter\<close>

lemma replaceAll_match:
  "m s = Some (g, n) \<Longrightarrow> 0 < n \<Longrightarrow> s \<noteq> [] \<Longrightarrow>
   replaceAll m f s = f (take n s) g @ replaceAll m f (drop n s)"
  by (cases s) auto

lemma scan_replaceAll:
  assumes A: "\<And>s g n. m s = Some (g, n) \<Longrightarrow> 0 < n \<and> n \<le> length s \<and> tok (take n s) g"
    and B: "\<And>t g rest. tok t g \<Longrightarrow> m (t @ rest) = Some (g, length t)"
    and F: "\<And>t g. tok t g \<Longrightarrow> f t g = f' t g"
  shows "scan tok f' s out \<longleftrightarrow> out = replaceAll m f s"
proof
  have nil: "m [] = None"
  proof (cases "m []")
    case (Some gn)
    then obtain g n where "m [] = Some (g, n)" by (cases gn) simp
    from A [OF this] show ?thesis by auto
  qed simp
  show "out = replaceAll m f s" if "scan tok f' s out"
    using that
  proof (induction rule: scan.induct)
    case scan_end
    show ?case by (simp add: nil)
  next
    case (scan_copy c cs out)
    have "m (c # cs) = None"
    proof (cases "m (c # cs)")
      case (Some gn)
      then obtain g n where mm: "m (c # cs) = Some (g, n)" by (cases gn) simp
      from A [OF mm] have "tok (take n (c # cs)) g" by blast
      moreover have "c # cs = take n (c # cs) @ drop n (c # cs)" by simp
      ultimately show ?thesis using scan_copy.hyps(1) by blast
    qed simp
    with scan_copy.IH show ?case by simp
  next
    case (scan_token t g rest out)
    have mm: "m (t @ rest) = Some (g, length t)" by (rule B [OF scan_token.hyps(1)])
    from A [OF mm] have pos: "0 < length t" by blast
    then have ne: "t @ rest \<noteq> []" by simp
    have "replaceAll m f (t @ rest) =
        f (take (length t) (t @ rest)) g @ replaceAll m f (drop (length t) (t @ rest))"
      by (rule replaceAll_match [where m = m and s = "t @ rest", OF mm pos ne])
    then show ?case
      using scan_token.IH F [OF scan_token.hyps(1)] by simp
  qed
  show "scan tok f' s out" if "out = replaceAll m f s"
    unfolding that
  proof (induction s rule: length_induct)
    case (1 s)
    show ?case
    proof (cases s)
      case Nil
      then show ?thesis by (simp add: nil scan_end)
    next
      case (Cons c cs)
      show ?thesis
      proof (cases "m (c # cs)")
        case None
        have "\<not> (\<exists>t g rest. tok t g \<and> c # cs = t @ rest)"
        proof
          assume "\<exists>t g rest. tok t g \<and> c # cs = t @ rest"
          then obtain t g rest where "tok t g" "c # cs = t @ rest" by blast
          with B [of t g rest] None show False by simp
        qed
        moreover have "scan tok f' cs (replaceAll m f cs)"
          using 1 Cons by simp
        ultimately have "scan tok f' (c # cs) (c # replaceAll m f cs)"
          by (rule scan_copy)
        with None Cons show ?thesis by simp
      next
        case (Some gn)
        then obtain g n where mm: "m (c # cs) = Some (g, n)" by (cases gn) simp
        from A [OF mm] have n: "0 < n" "tok (take n (c # cs)) g" by blast+
        have "length (drop n (c # cs)) < length s" using n(1) Cons by simp
        then have "scan tok f' (drop n (c # cs)) (replaceAll m f (drop n (c # cs)))"
          using 1 by blast
        with n(2) have "scan tok f' (take n (c # cs) @ drop n (c # cs))
            (f' (take n (c # cs)) g @ replaceAll m f (drop n (c # cs)))"
          by (rule scan_token)
        moreover have "replaceAll m f (c # cs) =
            f (take n (c # cs)) g @ replaceAll m f (drop n (c # cs))"
          using mm n(1) by simp
        ultimately show ?thesis
          using Cons F [OF n(2)] by (simp only: append_take_drop_id)
      qed
    qed
  qed
qed


lemma ciPrefix_iff:
  "ciPrefix p s \<longleftrightarrow> (\<exists>name rest. s = name @ rest \<and> map asciiUpper name = map asciiUpper p)"
proof (induction p s rule: ciPrefix.induct)
  case (1 s)
  show ?case by simp
next
  case (2 p ps)
  show ?case by simp
next
  case (3 p ps c cs)
  show ?case
  proof
    assume "ciPrefix (p # ps) (c # cs)"
    then have c: "asciiUpper c = asciiUpper p" and "ciPrefix ps cs" by simp_all
    with 3 obtain name rest where "cs = name @ rest" "map asciiUpper name = map asciiUpper ps"
      by blast
    with c have "c # cs = (c # name) @ rest \<and> map asciiUpper (c # name) = map asciiUpper (p # ps)"
      by simp
    then show "\<exists>name rest. c # cs = name @ rest \<and> map asciiUpper name = map asciiUpper (p # ps)"
      by blast
  next
    assume "\<exists>name rest. c # cs = name @ rest \<and> map asciiUpper name = map asciiUpper (p # ps)"
    then obtain name rest where n: "c # cs = name @ rest"
      "map asciiUpper name = map asciiUpper (p # ps)" by blast
    from n(2) obtain x xs where x: "name = x # xs" by (cases name) simp_all
    with n have "x = c" "cs = xs @ rest" "asciiUpper x = asciiUpper p"
      "map asciiUpper xs = map asciiUpper ps" by simp_all
    with 3 show "ciPrefix (p # ps) (c # cs)" by auto
  qed
qed

lemma asciiUpper_url:
  "asciiUpper 117 = 85" "asciiUpper 114 = 82" "asciiUpper 108 = 76" "asciiUpper 40 = 40"
  by (simp_all add: asciiUpper_def)

lemma optQuote_simps:
  "optQuote [] = 0"
  "optQuote (c # cs) = (if isQuote c then 1 else 0)"
  by (simp_all add: optQuote_def)

lemma optQuote_opt:
  assumes "q \<in> optionalQuotes" and "\<not> isQuote c"
  shows "optQuote (q @ c # t) = length q"
proof -
  from assms(1) consider "q = []" | "q = [34]" | "q = [39]"
    by (auto simp: optionalQuotes_def)
  then show ?thesis
    using assms(2) by cases (simp_all add: optQuote_simps isQuote_def)
qed

lemma matchCssUrl_token:
  assumes name: "map asciiUpper name = js ''URL''"
    and q1: "q1 \<in> optionalQuotes" and q2: "q2 \<in> optionalQuotes"
    and arg: "arg \<noteq> []" "\<forall>c\<in>set arg. \<not> isCssDelim c"
  shows "matchCssUrl (name @ js ''('' @ q1 @ arg @ q2 @ js '')'' @ post) =
           Some (arg, length (name @ js ''('' @ q1 @ arg @ q2 @ js '')''))"
proof -
  from name obtain x y z where n: "name = [x, y, z]"
    and up: "asciiUpper x = 85" "asciiUpper y = 82" "asciiUpper z = 76"
    by (auto simp: map_eq_Cons_conv)
  let ?rest = "q1 @ arg @ q2 @ 41 # post"
  have s: "name @ js ''('' @ q1 @ arg @ q2 @ js '')'' @ post = x # y # z # 40 # ?rest"
    by (simp add: n)
  have pre: "ciPrefix (js ''url('') (x # y # z # 40 # ?rest)"
    by (simp add: up asciiUpper_url)
  have d4: "drop 4 (x # y # z # 40 # ?rest) = ?rest"
    by simp
  obtain a as where a: "arg = a # as" using arg(1) by (cases arg) simp_all
  have nd: "\<not> isCssDelim a" using arg(2) a by simp
  then have na: "\<not> isQuote a" by (simp add: isCssDelim_def isQuote_def)
  have o1: "optQuote ?rest = length q1"
    using optQuote_opt [OF q1 na, of "as @ q2 @ 41 # post"] by (simp add: a)
  have t: "drop (length q1) ?rest = arg @ q2 @ 41 # post"
    by simp
  have hd2: "takeWhile (\<lambda>c. \<not> isCssDelim c) (q2 @ 41 # post) = []"
  proof -
    from q2 consider "q2 = []" | "q2 = [34]" | "q2 = [39]"
      by (auto simp: optionalQuotes_def)
    then show ?thesis by cases (simp_all add: isCssDelim_def)
  qed
  have "takeWhile (\<lambda>c. \<not> isCssDelim c) (arg @ q2 @ 41 # post) =
        arg @ takeWhile (\<lambda>c. \<not> isCssDelim c) (q2 @ 41 # post)"
    using arg(2) by (intro takeWhile_append2) simp
  then have tw: "takeWhile (\<lambda>c. \<not> isCssDelim c) (arg @ q2 @ 41 # post) = arg"
    by (simp only: hd2 append_Nil2)
  have r: "drop (length arg) (arg @ q2 @ 41 # post) = q2 @ 41 # post"
    by simp
  have np: "\<not> isQuote 41" by (simp add: isQuote_def)
  have o2: "optQuote (q2 @ 41 # post) = length q2"
    by (rule optQuote_opt [OF q2 np])
  have fin: "drop (length q2) (q2 @ 41 # post) = 41 # post"
    by simp
  have "matchCssUrl (x # y # z # 40 # ?rest) =
          Some (arg, 4 + length q1 + length arg + length q2 + 1)"
    unfolding matchCssUrl_def
    by (simp only: pre if_True d4 o1 t tw r o2 fin Let_def list.case arg(1) not_False_eq_True
        simp_thms)
  then show ?thesis by (simp add: s n)
qed

lemma optQuote_take:
  "take (optQuote x) x \<in> optionalQuotes \<and> length (take (optQuote x) x) = optQuote x"
proof (cases x)
  case Nil
  then show ?thesis by (simp add: optQuote_def optionalQuotes_def)
next
  case (Cons q xs)
  then show ?thesis
    by (cases "isQuote q") (auto simp: optQuote_def optionalQuotes_def isQuote_def)
qed

lemma asciiUpper_paren: "asciiUpper c = 40 \<Longrightarrow> c = 40"
  by (simp add: asciiUpper_def split: if_splits)

lemma matchCssUrl_shape:
  assumes "matchCssUrl s = Some (arg, n)"
  shows "0 < n \<and> n \<le> length s \<and> cssUrlToken (take n s) arg"
proof -
  have cp: "ciPrefix (js ''url('') s"
    using assms by (cases "ciPrefix (js ''url('') s") (simp_all add: matchCssUrl_def)
  then obtain name4 s4 where s: "s = name4 @ s4"
    and up: "map asciiUpper name4 = map asciiUpper (js ''url('')"
    unfolding ciPrefix_iff by blast
  have "map asciiUpper (js ''url('') = js ''URL(''" by (simp add: asciiUpper_def)
  with up have up': "map asciiUpper name4 = [85, 82, 76, 40]" by simp
  then obtain x y z w where n4: "name4 = [x, y, z, w]"
    and u: "asciiUpper x = 85" "asciiUpper y = 82" "asciiUpper z = 76" "asciiUpper w = 40"
    by (auto simp: map_eq_Cons_conv)
  have w: "w = 40" by (rule asciiUpper_paren [OF u(4)])
  have name: "map asciiUpper [x, y, z] = js ''URL''" using u by simp
  have d4: "drop 4 s = s4" by (simp add: s n4)
  let ?oq = "optQuote s4"
  let ?t = "drop ?oq s4"
  let ?url = "takeWhile (\<lambda>c. \<not> isCssDelim c) ?t"
  let ?r = "drop (length ?url) ?t"
  let ?cq = "optQuote ?r"
  have m: "(case drop ?cq ?r of [] \<Rightarrow> None
            | p # _ \<Rightarrow> if ?url \<noteq> [] \<and> p = 41
                then Some (?url, 4 + ?oq + length ?url + ?cq + 1) else None) = Some (arg, n)"
    using assms by (simp only: matchCssUrl_def cp if_True d4 Let_def)
  show ?thesis
  proof (cases "drop ?cq ?r")
    case Nil
    with m show ?thesis by simp
  next
    case (Cons p rest)
    have m': "(if ?url \<noteq> [] \<and> p = 41
                then Some (?url, 4 + ?oq + length ?url + ?cq + 1) else None) = Some (arg, n)"
      using m unfolding Cons by (simp only: list.case)
    have c: "?url \<noteq> [] \<and> p = 41"
    proof (rule ccontr)
      assume "\<not> (?url \<noteq> [] \<and> p = 41)"
      then have "(if ?url \<noteq> [] \<and> p = 41
                then Some (?url, 4 + ?oq + length ?url + ?cq + 1) else None) = None"
        by (rule if_not_P)
      with m' show False by (simp only: option.distinct)
    qed
    have "Some (?url, 4 + ?oq + length ?url + ?cq + 1) = Some (arg, n)"
      using m' unfolding if_P [OF c] .
    then have a: "arg = ?url" and n: "n = 4 + ?oq + length ?url + ?cq + 1"
      by (auto simp only: option.inject prod.inject)
    let ?q1 = "take ?oq s4"
    let ?q2 = "take ?cq ?r"
    have q1: "?q1 \<in> optionalQuotes" "length ?q1 = ?oq" using optQuote_take [of s4] by simp_all
    have q2: "?q2 \<in> optionalQuotes" "length ?q2 = ?cq" using optQuote_take [of ?r] by simp_all
    have s4: "s4 = ?q1 @ ?t" by simp
    have "take (length ?url) ?t = ?url" by (rule takeWhile_eq_take [symmetric])
    then have t: "?t = ?url @ ?r" by (metis append_take_drop_id)
    have r: "?r = ?q2 @ p # rest" using Cons by (metis append_take_drop_id)
    have full: "s = [x, y, z] @ js ''('' @ ?q1 @ arg @ ?q2 @ js '')'' @ rest"
    proof -
      have "s = [x, y, z, w] @ s4" by (simp only: s n4)
      also have "s4 = ?q1 @ (?url @ (?q2 @ p # rest))"
        using s4 t r by (metis (no_types))
      finally show ?thesis using w c a by simp
    qed
    have nd: "\<forall>c\<in>set arg. \<not> isCssDelim c"
      unfolding a by (auto dest: set_takeWhileD)
    have ln: "n = length ([x, y, z] @ js ''('' @ ?q1 @ arg @ ?q2 @ js '')'')"
      unfolding n a using q1(2) q2(2) by (simp del: length_take)
    have tk: "take n s = [x, y, z] @ js ''('' @ ?q1 @ arg @ ?q2 @ js '')''"
    proof -
      have "take n (([x, y, z] @ js ''('' @ ?q1 @ arg @ ?q2 @ js '')'') @ rest) =
            [x, y, z] @ js ''('' @ ?q1 @ arg @ ?q2 @ js '')''"
        unfolding ln by (rule append_eq_conv_conj [THEN iffD1, THEN conjunct1, symmetric]) simp
      moreover have "s = ([x, y, z] @ js ''('' @ ?q1 @ arg @ ?q2 @ js '')'') @ rest"
        using full by simp
      ultimately show ?thesis by metis
    qed
    have "cssUrlToken (take n s) arg"
      unfolding cssUrlToken_def tk using name q1(1) q2(1) c a nd by blast
    moreover have "0 < n" by (simp add: n)
    moreover have "n \<le> length s"
    proof -
      have "length s = n + length rest"
        by (subst full, subst ln) simp
      then show ?thesis by simp
    qed
    ultimately show ?thesis by blast
  qed
qed

lemma matchCssUrl_cssUrlToken:
  assumes "cssUrlToken t arg"
  shows "matchCssUrl (t @ rest) = Some (arg, length t)"
proof -
  from assms obtain name q1 q2 where t: "t = name @ js ''('' @ q1 @ arg @ q2 @ js '')''"
    and c: "map asciiUpper name = js ''URL''" "q1 \<in> optionalQuotes" "q2 \<in> optionalQuotes"
      "arg \<noteq> []" "\<forall>c\<in>set arg. \<not> isCssDelim c"
    unfolding cssUrlToken_def by blast
  from matchCssUrl_token [OF c, of rest] show ?thesis by (simp add: t)
qed

lemma cssTokenSpec_replacer: "cssReplacer b t arg = cssTokenSpec b t arg"
  by (simp add: cssReplacer_def cssTokenSpec_def startsWith_def)

text \<open>
  C5, as amended. The CSS rewriter is the scan whose tokens are the \<^verbatim>\<open>url(...)\<close> forms
  above: every token that the scan meets, wherever it stands and whatever precedes it,
  is replaced by \<^verbatim>\<open>url("\<close>, the ProxiedURL of its argument and \<^verbatim>\<open>")\<close> when the argument
  does not start with \<^verbatim>\<open>data:\<close>, and is copied when it does; every character at which no
  token starts is copied. The output of the scan is unique and is the output of
  \<open>rewriteCss\<close>.
\<close>

theorem rewriteCss_scan:
  "scan cssUrlToken (cssTokenSpec b) css out \<longleftrightarrow> out = rewriteCss css b"
  unfolding rewriteCss_def
  by (rule scan_replaceAll)
     (simp_all add: matchCssUrl_shape matchCssUrl_cssUrlToken cssTokenSpec_replacer)

theorem rewriteCss_scan_witness:
  "cssUrlToken (js ''url(/bg.png)'') (js ''/bg.png'') \<and>
   scan cssUrlToken (cssTokenSpec (js ''https://e.com'')) (js ''background:url(/bg.png)'')
     (js ''background:url(\"https://tv-proxy.shariflii.workers.dev/?url=https%3A%2F%2Fe.com%2Fbg.png\")'') \<and>
   rewriteCss (js ''background:url(/bg.png)'') (js ''https://e.com'') =
     js ''background:url(\"https://tv-proxy.shariflii.workers.dev/?url=https%3A%2F%2Fe.com%2Fbg.png\")'' \<and>
   scan cssUrlToken (cssTokenSpec (js ''https://e.com'')) (js ''a{b:url(data:x);c:URL(y.png)}'')
     (js ''a{b:url(data:x);c:url(\"https://tv-proxy.shariflii.workers.dev/?url=https%3A%2F%2Fe.com%2Fy.png\")}'')"
proof -
  have t: "cssUrlToken (js ''url(/bg.png)'') (js ''/bg.png'')"
    unfolding cssUrlToken_def
    by (intro exI [of _ "js ''url''"] exI [of _ "[]"])
       (simp add: asciiUpper_def optionalQuotes_def isCssDelim_def)
  have e1: "rewriteCss (js ''background:url(/bg.png)'') (js ''https://e.com'') =
     js ''background:url(\"https://tv-proxy.shariflii.workers.dev/?url=https%3A%2F%2Fe.com%2Fbg.png\")''"
    by (simp add: eval_simps)
  have e2: "rewriteCss (js ''a{b:url(data:x);c:URL(y.png)}'') (js ''https://e.com'') =
     js ''a{b:url(data:x);c:url(\"https://tv-proxy.shariflii.workers.dev/?url=https%3A%2F%2Fe.com%2Fy.png\")}''"
    by (simp add: eval_simps)
  have s1: "scan cssUrlToken (cssTokenSpec (js ''https://e.com'')) (js ''background:url(/bg.png)'')
     (js ''background:url(\"https://tv-proxy.shariflii.workers.dev/?url=https%3A%2F%2Fe.com%2Fbg.png\")'')"
    using rewriteCss_scan [of "js ''https://e.com''" "js ''background:url(/bg.png)''"] e1
    by (simp only:)
  have s2: "scan cssUrlToken (cssTokenSpec (js ''https://e.com'')) (js ''a{b:url(data:x);c:URL(y.png)}'')
     (js ''a{b:url(data:x);c:url(\"https://tv-proxy.shariflii.workers.dev/?url=https%3A%2F%2Fe.com%2Fy.png\")}'')"
    using rewriteCss_scan [of "js ''https://e.com''" "js ''a{b:url(data:x);c:URL(y.png)}''"] e2
    by (simp only:)
  from t s1 e1 s2 show ?thesis by (intro conjI)
qed

text \<open>
  A \<^verbatim>\<open>url(...)\<close> form outside that shape is not rewritten as a whole: an argument
  with a closing parenthesis in it is matched up to that parenthesis only, and an
  argument set off from its quotes by a space is not matched at all.
\<close>

theorem rewriteCss_token_counterexample:
  "rewriteCss (js ''url(\"photo (1).jpg\")'') (js ''https://e.com'') =
     js ''url(\"https://tv-proxy.shariflii.workers.dev/?url=https%3A%2F%2Fe.com%2Fphoto%20(1\").jpg\")'' \<and>
   rewriteCss (js ''url(\"photo (1).jpg\")'') (js ''https://e.com'') \<noteq>
     js ''url(\"'' @ proxyUrl (js ''photo (1).jpg'') (js ''https://e.com'') @ js ''\")'' \<and>
   rewriteCss (js ''url( \"a.png\" )'') (js ''https://e.com'') = js ''url( \"a.png\" )''"
proof -
  have 1: "rewriteCss (js ''url(\"photo (1).jpg\")'') (js ''https://e.com'') =
     js ''url(\"https://tv-proxy.shariflii.workers.dev/?url=https%3A%2F%2Fe.com%2Fphoto%20(1\").jpg\")''"
    by (simp add: eval_simps)
  have p: "proxyUrl (js ''photo (1).jpg'') (js ''https://e.com'') =
     js ''https://tv-proxy.shariflii.workers.dev/?url=https%3A%2F%2Fe.com%2Fphoto%20(1).jpg''"
    by (simp add: eval_simps)
  have 2: "rewriteCss (js ''url(\"photo (1).jpg\")'') (js ''https://e.com'') \<noteq>
     js ''url(\"'' @ proxyUrl (js ''photo (1).jpg'') (js ''https://e.com'') @ js ''\")''"
    unfolding 1 p by simp
  have 3: "rewriteCss (js ''url( \"a.png\" )'') (js ''https://e.com'') = js ''url( \"a.png\" )''"
    by (simp add: eval_simps)
  from 1 2 3 show ?thesis by (intro conjI)
qed

text \<open>
  The callbacks of the attribute pass and of the CSS rewriter return the match when
  their guard holds: the attribute pass for \<^verbatim>\<open>data:\<close>, \<^verbatim>\<open>javascript:\<close> and \<^verbatim>\<open>#\<close>, the
  CSS rewriter for \<^verbatim>\<open>data:\<close> alone.
\<close>

lemma attrReplacer_guard:
  "startsWith url (js ''data:'') \<or> startsWith url (js ''javascript:'') \<or>
   startsWith url (js ''#'') \<Longrightarrow> attrReplacer b m (attr, url) = m"
  by (simp only: attrReplacer_def prod.case if_True)

lemma cssReplacer_guard: "startsWith url (js ''data:'') \<Longrightarrow> cssReplacer b m url = m"
  by (simp only: cssReplacer_def if_True)

lemma attribute_pass_keeps_inline_references:
  "rewriteHtml (js ''<a href=\"#top\"><img SRC=\"data:x\">'') (js ''https://e.com'') =
     js ''<a href=\"#top\"><img SRC=\"data:x\">''"
  by (simp add: eval_simps)

text \<open>
  C4. A reference that begins with \<^verbatim>\<open>data:\<close>, \<^verbatim>\<open>javascript:\<close> or \<^verbatim>\<open>#\<close> is to be left
  unchanged by every rewriter. The attribute pass does so. The \<^verbatim>\<open>srcset\<close> pass has no
  such test: a \<^verbatim>\<open>data:\<close> candidate is cut at its comma and both halves are resolved
  against the base origin. The CSS rewriter tests \<^verbatim>\<open>data:\<close> only: a fragment reference
  \<^verbatim>\<open>url(#c)\<close> is resolved against the base origin.
\<close>

theorem inline_references_rewritten:
  "rewriteHtml (js ''<img srcset=\"data:image/gif;base64,R0lGOD 1x\">'') (js ''https://e.com'') =
     js ''<img srcset=\"https://tv-proxy.shariflii.workers.dev/?url=https%3A%2F%2Fe.com%2Fdata%3Aimage%2Fgif%3Bbase64, https://tv-proxy.shariflii.workers.dev/?url=https%3A%2F%2Fe.com%2FR0lGOD 1x\">'' \<and>
   rewriteCss (js ''a{clip-path:url(#c)}'') (js ''https://e.com'') =
     js ''a{clip-path:url(\"https://tv-proxy.shariflii.workers.dev/?url=https%3A%2F%2Fe.com%2F%23c\")}''"
proof -
  have 1: "rewriteHtml (js ''<img srcset=\"data:image/gif;base64,R0lGOD 1x\">'') (js ''https://e.com'') =
     js ''<img srcset=\"https://tv-proxy.shariflii.workers.dev/?url=https%3A%2F%2Fe.com%2Fdata%3Aimage%2Fgif%3Bbase64, https://tv-proxy.shariflii.workers.dev/?url=https%3A%2F%2Fe.com%2FR0lGOD 1x\">''"
    by (simp add: eval_simps)
  have 2: "rewriteCss (js ''a{clip-path:url(#c)}'') (js ''https://e.com'') =
     js ''a{clip-path:url(\"https://tv-proxy.shariflii.workers.dev/?url=https%3A%2F%2Fe.com%2F%23c\")}''"
    by (simp add: eval_simps)
  from 1 2 show ?thesis by (rule conjI)
qed

section \<open>Properties of the srcset pass\<close>

lemma unreserved_plain: "uriUnreserved c \<Longrightarrow> \<not> isWhiteSpace c \<and> c \<noteq> 44"
  by (auto simp: uriUnreserved_def isWhiteSpace_def)

lemma proxyUrl_chars:
  assumes "c \<in> set (proxyUrl u b)"
  shows "\<not> isWhiteSpace c \<and> c \<noteq> 44"
proof -
  obtain a where "proxyUrl u b = PROXY_URL @ js ''/?url='' @ encodeURIComponent a"
    by (simp add: proxyUrl_def Let_def)
  with assms consider "c \<in> set PROXY_URL" | "c \<in> set (js ''/?url='')"
    | "c \<in> set (encodeURIComponent a)"
    by (auto simp only: set_append Un_iff)
  then show ?thesis
  proof cases
    case 1
    have "\<forall>x\<in>set PROXY_URL. \<not> isWhiteSpace x \<and> x \<noteq> 44"
      by (simp add: PROXY_URL_def isWhiteSpace_def)
    with 1 show ?thesis by blast
  next
    case 2
    have "\<forall>x\<in>set (js ''/?url=''). \<not> isWhiteSpace x \<and> x \<noteq> 44"
      by (simp add: isWhiteSpace_def)
    with 2 show ?thesis by blast
  next
    case 3
    then have "c = 37 \<or> uriUnreserved c" by (rule encodeURIComponent_chars)
    then show ?thesis using unreserved_plain by (auto simp: isWhiteSpace_def)
  qed
qed

lemma proxyUrl_nonempty: "proxyUrl u b \<noteq> []"
  by (simp add: proxyUrl_def PROXY_URL_def Let_def)

lemma trim_id:
  assumes "s \<noteq> []" "\<not> isWhiteSpace (hd s)" "\<not> isWhiteSpace (last s)"
  shows "trim s = s"
proof -
  have 1: "dropWhile isWhiteSpace s = s"
    using assms(1,2) by (cases s) simp_all
  have 2: "dropWhile isWhiteSpace (rev s) = rev s"
    using assms(1,3) by (cases "rev s") (simp_all add: last_rev [symmetric] del: last_rev)
  show ?thesis by (simp add: trim_def 1 2)
qed

lemma trim_space_after:
  assumes "s \<noteq> []" "\<not> isWhiteSpace (hd s)" "\<not> isWhiteSpace (last s)"
  shows "trim (s @ js '' '') = s"
proof -
  have 1: "dropWhile isWhiteSpace (s @ js '' '') = s @ js '' ''"
    using assms(1,2) by (cases s) simp_all
  have 2: "dropWhile isWhiteSpace (rev (s @ js '' '')) = dropWhile isWhiteSpace (rev s)"
    by (simp add: isWhiteSpace_def)
  have 3: "dropWhile isWhiteSpace (rev s) = rev s"
    using assms(1,3) by (cases "rev s") (simp_all add: last_rev [symmetric] del: last_rev)
  show ?thesis by (simp only: trim_def 1 2 3 rev_rev_ident)
qed

lemma trim_last:
  "trim s \<noteq> [] \<Longrightarrow> \<not> isWhiteSpace (last (trim s))"
proof -
  assume a: "trim s \<noteq> []"
  let ?d = "dropWhile isWhiteSpace (rev (dropWhile isWhiteSpace s))"
  have "?d \<noteq> []" using a by (simp add: trim_def)
  then have "\<not> isWhiteSpace (hd ?d)" by (rule hd_dropWhile)
  moreover have "last (trim s) = hd ?d"
    using \<open>?d \<noteq> []\<close> by (simp add: trim_def last_rev)
  ultimately show ?thesis by simp
qed

lemma set_dropWhile_subset: "set (dropWhile P xs) \<subseteq> set xs"
  by (auto dest: set_dropWhileD)

lemma set_trim: "set (trim s) \<subseteq> set s"
proof -
  have "set (trim s) = set (dropWhile isWhiteSpace (rev (dropWhile isWhiteSpace s)))"
    by (simp add: trim_def)
  also have "\<dots> \<subseteq> set (rev (dropWhile isWhiteSpace s))"
    by (rule set_dropWhile_subset)
  also have "\<dots> = set (dropWhile isWhiteSpace s)"
    by simp
  also have "\<dots> \<subseteq> set s"
    by (rule set_dropWhile_subset)
  finally show ?thesis .
qed

lemma splitWs_Nil:
  assumes "dropWhile (\<lambda>c. \<not> isWhiteSpace c) s = []"
  shows "splitWs s = [s]"
  by (subst splitWs.simps) (simp only: assms list.case)

lemma splitWs_Cons:
  assumes "dropWhile (\<lambda>c. \<not> isWhiteSpace c) s = w # r"
  shows "splitWs s = takeWhile (\<lambda>c. \<not> isWhiteSpace c) s # splitWs (dropWhile isWhiteSpace r)"
  by (subst splitWs.simps) (simp only: assms list.case)

lemma splitOn_Nil:
  assumes "dropWhile (\<lambda>c. c \<noteq> d) s = []"
  shows "splitOn d s = [s]"
  by (subst splitOn.simps) (simp only: assms list.case)

lemma splitOn_Cons:
  assumes "dropWhile (\<lambda>c. c \<noteq> d) s = w # r"
  shows "splitOn d s = takeWhile (\<lambda>c. c \<noteq> d) s # splitOn d r"
  by (subst splitOn.simps) (simp only: assms list.case)

lemma splitWs_head:
  "\<exists>ps. splitWs s = takeWhile (\<lambda>c. \<not> isWhiteSpace c) s # ps"
proof (cases "dropWhile (\<lambda>c. \<not> isWhiteSpace c) s")
  case Nil
  then have t: "takeWhile (\<lambda>c. \<not> isWhiteSpace c) s = s"
    by (metis append_Nil2 takeWhile_dropWhile_id)
  show ?thesis unfolding splitWs_Nil [OF Nil] t by simp
next
  case (Cons w r)
  then show ?thesis by (simp add: splitWs_Cons)
qed

lemma splitWs_set: "p \<in> set (splitWs s) \<Longrightarrow> set p \<subseteq> set s \<and> (\<forall>c\<in>set p. \<not> isWhiteSpace c)"
proof (induction s arbitrary: p rule: splitWs.induct)
  case (1 s)
  show ?case
  proof (cases "dropWhile (\<lambda>c. \<not> isWhiteSpace c) s")
    case Nil
    then have all: "\<forall>c\<in>set s. \<not> isWhiteSpace c"
      by (simp add: dropWhile_eq_Nil_conv)
    from splitWs_Nil [OF Nil] "1.prems" have "p = s" by simp
    with all show ?thesis by simp
  next
    case (Cons w r)
    from splitWs_Cons [OF Cons] "1.prems" have
      "p = takeWhile (\<lambda>c. \<not> isWhiteSpace c) s \<or> p \<in> set (splitWs (dropWhile isWhiteSpace r))"
      by simp
    then show ?thesis
    proof
      assume p: "p = takeWhile (\<lambda>c. \<not> isWhiteSpace c) s"
      show ?thesis unfolding p
        by (auto dest: set_takeWhileD)
    next
      assume "p \<in> set (splitWs (dropWhile isWhiteSpace r))"
      then have ih: "set p \<subseteq> set (dropWhile isWhiteSpace r) \<and> (\<forall>c\<in>set p. \<not> isWhiteSpace c)"
        by (rule "1.IH" [OF Cons])
      have "set (dropWhile isWhiteSpace r) \<subseteq> set r"
        by (rule set_dropWhile_subset)
      moreover have "set r \<subseteq> set s"
        using Cons set_dropWhile_subset [of "\<lambda>c. \<not> isWhiteSpace c" s] by auto
      ultimately show ?thesis using ih by blast
    qed
  qed
qed

lemma splitWs_second:
  assumes sp: "splitWs s = u # d # ps" and tr: "s = [] \<or> \<not> isWhiteSpace (last s)"
  shows "d \<noteq> []"
proof (cases "dropWhile (\<lambda>c. \<not> isWhiteSpace c) s")
  case Nil
  then have "splitWs s = [s]" by (rule splitWs_Nil)
  with sp show ?thesis by simp
next
  case (Cons w r)
  then have "splitWs s = takeWhile (\<lambda>c. \<not> isWhiteSpace c) s # splitWs (dropWhile isWhiteSpace r)"
    by (rule splitWs_Cons)
  with sp have tl: "splitWs (dropWhile isWhiteSpace r) = d # ps" by simp
  obtain qs where "splitWs (dropWhile isWhiteSpace r) =
      takeWhile (\<lambda>c. \<not> isWhiteSpace c) (dropWhile isWhiteSpace r) # qs"
    using splitWs_head by blast
  with tl have d: "d = takeWhile (\<lambda>c. \<not> isWhiteSpace c) (dropWhile isWhiteSpace r)" by simp
  have w: "isWhiteSpace w"
    using hd_dropWhile [of "\<lambda>c. \<not> isWhiteSpace c" s] Cons by simp
  have s: "s = takeWhile (\<lambda>c. \<not> isWhiteSpace c) s @ w # r"
    using takeWhile_dropWhile_id [of "\<lambda>c. \<not> isWhiteSpace c" s] Cons by simp
  then have ls: "last s = last (w # r)"
    by (metis last_appendR list.distinct(1))
  have nw: "\<not> isWhiteSpace (last (w # r))"
    using tr s ls by auto
  have "dropWhile isWhiteSpace r \<noteq> []"
  proof
    assume "dropWhile isWhiteSpace r = []"
    then have "\<forall>c\<in>set r. isWhiteSpace c" by (simp add: dropWhile_eq_Nil_conv)
    then have "\<forall>c\<in>set (w # r). isWhiteSpace c" using w by simp
    then have "isWhiteSpace (last (w # r))" using last_in_set [of "w # r"] by blast
    with nw show False by simp
  qed
  then have "\<not> isWhiteSpace (hd (dropWhile isWhiteSpace r))"
    by (rule hd_dropWhile)
  with \<open>dropWhile isWhiteSpace r \<noteq> []\<close> show ?thesis
    unfolding d by (cases "dropWhile isWhiteSpace r") simp_all
qed

lemma proxyUrl_ends:
  "\<not> isWhiteSpace (hd (proxyUrl u b)) \<and> \<not> isWhiteSpace (last (proxyUrl u b))"
  using proxyUrl_chars [of _ u b] proxyUrl_nonempty [of u b] hd_in_set last_in_set by blast

lemma srcsetCandidate_spec: "srcsetCandidate b part = candidateSpec b part"
proof (cases "splitWs (trim part)")
  case Nil
  have "trim (proxyUrl [] b @ js '' '') = proxyUrl [] b"
    using proxyUrl_nonempty proxyUrl_ends by (intro trim_space_after) auto
  with Nil show ?thesis by (simp add: srcsetCandidate_def candidateSpec_def)
next
  case (Cons u ps)
  show ?thesis
  proof (cases ps)
    case Nil
    have "trim (proxyUrl u b @ js '' '') = proxyUrl u b"
      using proxyUrl_nonempty proxyUrl_ends by (intro trim_space_after) auto
    with Nil Cons show ?thesis by (simp add: srcsetCandidate_def candidateSpec_def)
  next
    case (Cons d qs)
    with \<open>splitWs (trim part) = u # ps\<close> have sp: "splitWs (trim part) = u # d # qs" by simp
    have "trim part = [] \<or> \<not> isWhiteSpace (last (trim part))"
      using trim_last by blast
    then have dne: "d \<noteq> []" by (rule splitWs_second [OF sp])
    have "d \<in> set (splitWs (trim part))" using sp by simp
    then have "\<forall>c\<in>set d. \<not> isWhiteSpace c" using splitWs_set by blast
    then have ld: "\<not> isWhiteSpace (last d)" using dne last_in_set by blast
    let ?s = "proxyUrl u b @ js '' '' @ d"
    have "?s \<noteq> []" using dne by simp
    moreover have "\<not> isWhiteSpace (hd ?s)"
      using proxyUrl_nonempty [of u b] proxyUrl_ends [of u b] by (simp add: hd_append)
    moreover have "\<not> isWhiteSpace (last ?s)"
      using dne ld by simp
    ultimately have "trim ?s = ?s" by (rule trim_id)
    with sp show ?thesis by (simp add: srcsetCandidate_def candidateSpec_def)
  qed
qed

lemma splitOn_length: "length (splitOn d s) = Suc (length (filter (\<lambda>c. c = d) s))"
proof (induction d s rule: splitOn.induct)
  case (1 d s)
  show ?case
  proof (cases "dropWhile (\<lambda>c. c \<noteq> d) s")
    case Nil
    then have "\<forall>c\<in>set s. c \<noteq> d" by (simp add: dropWhile_eq_Nil_conv)
    then have "filter (\<lambda>c. c = d) s = []" by (simp add: filter_empty_conv)
    moreover from Nil have "splitOn d s = [s]" by (rule splitOn_Nil)
    ultimately show ?thesis by simp
  next
    case (Cons w r)
    then have sp: "splitOn d s = takeWhile (\<lambda>c. c \<noteq> d) s # splitOn d r"
      by (rule splitOn_Cons)
    have w: "w = d" using hd_dropWhile [of "\<lambda>c. c \<noteq> d" s] Cons by simp
    have s: "s = takeWhile (\<lambda>c. c \<noteq> d) s @ w # r"
      using takeWhile_dropWhile_id [of "\<lambda>c. c \<noteq> d" s] Cons by simp
    have "filter (\<lambda>c. c = d) (takeWhile (\<lambda>c. c \<noteq> d) s) = []"
      by (auto simp: filter_empty_conv dest: set_takeWhileD)
    then have "length (filter (\<lambda>c. c = d) (takeWhile (\<lambda>c. c \<noteq> d) s @ w # r)) =
               Suc (length (filter (\<lambda>c. c = d) r))"
      using w by simp
    with s have "length (filter (\<lambda>c. c = d) s) = Suc (length (filter (\<lambda>c. c = d) r))"
      by simp
    with sp "1.IH" [OF Cons] show ?thesis by simp
  qed
qed

lemma splitOn_set: "p \<in> set (splitOn d s) \<Longrightarrow> d \<notin> set p"
proof (induction d s arbitrary: p rule: splitOn.induct)
  case (1 d s)
  show ?case
  proof (cases "dropWhile (\<lambda>c. c \<noteq> d) s")
    case Nil
    then have "\<forall>c\<in>set s. c \<noteq> d" by (simp add: dropWhile_eq_Nil_conv)
    moreover from splitOn_Nil [OF Nil] "1.prems" have "p = s" by simp
    ultimately show ?thesis by auto
  next
    case (Cons w r)
    from splitOn_Cons [OF Cons] "1.prems" have "p = takeWhile (\<lambda>c. c \<noteq> d) s \<or> p \<in> set (splitOn d r)"
      by simp
    then show ?thesis
      using "1.IH" [OF Cons] by (auto dest: set_takeWhileD)
  qed
qed

lemma candidateSpec_commas:
  assumes "44 \<notin> set part"
  shows "commas (candidateSpec b part) = 0"
proof -
  have p: "\<And>u. 44 \<notin> set (proxyUrl u b)" using proxyUrl_chars by blast
  have d: "\<And>x. x \<in> set (splitWs (trim part)) \<Longrightarrow> 44 \<notin> set x"
    using splitWs_set set_trim assms by blast
  have "44 \<notin> set (candidateSpec b part)"
    unfolding candidateSpec_def using p d
    by (auto split: list.splits)
  then show ?thesis by (auto simp: commas_def filter_empty_conv)
qed

lemma commas_join:
  "\<forall>x\<in>set xs. commas x = 0 \<Longrightarrow> commas (join (js '', '') xs) = length xs - 1"
  by (induction "js '', ''" xs rule: join.induct) (simp_all add: commas_def)

lemma srcsetReplacer_candidates:
  "srcsetReplacer b m v =
     js ''srcset=\"'' @ join (js '', '') (map (candidateSpec b) (splitOn 44 v)) @ js ''\"'' \<and>
   length (splitOn 44 v) = Suc (commas v) \<and>
   commas (join (js '', '') (map (candidateSpec b) (splitOn 44 v))) = commas v"
proof -
  have 1: "map (srcsetCandidate b) (splitOn 44 v) = map (candidateSpec b) (splitOn 44 v)"
    by (simp add: srcsetCandidate_spec)
  have 2: "length (splitOn 44 v) = Suc (commas v)"
    by (simp add: splitOn_length commas_def)
  have "\<forall>x\<in>set (map (candidateSpec b) (splitOn 44 v)). commas x = 0"
    using splitOn_set candidateSpec_commas by auto
  then have "commas (join (js '', '') (map (candidateSpec b) (splitOn 44 v))) =
             length (map (candidateSpec b) (splitOn 44 v)) - 1"
    by (rule commas_join)
  with 2 have 3: "commas (join (js '', '') (map (candidateSpec b) (splitOn 44 v))) = commas v"
    by simp
  from 2 3 show ?thesis unfolding srcsetReplacer_def Let_def 1 by simp
qed


lemma matchQuoted_token:
  assumes "isQuote q1" "isQuote q2" "v \<noteq> []" "\<forall>c\<in>set v. \<not> isQuote c"
  shows "matchQuoted (q1 # v @ q2 # rest) = Some (v, length v + 2)"
proof -
  have "takeWhile (\<lambda>c. \<not> isQuote c) (v @ q2 # rest) =
        v @ takeWhile (\<lambda>c. \<not> isQuote c) (q2 # rest)"
    using assms(4) by (intro takeWhile_append2) simp
  then have tw: "takeWhile (\<lambda>c. \<not> isQuote c) (v @ q2 # rest) = v"
    using assms(2) by simp
  have d: "drop (length v) (v @ q2 # rest) = q2 # rest" by simp
  show ?thesis
    unfolding matchQuoted_def
    by (simp only: list.case assms(1) if_True Let_def tw d assms(2) assms(3) not_False_eq_True
        simp_thms)
qed

lemma matchQuoted_shape:
  assumes "matchQuoted s = Some (v, n)"
  shows "\<exists>q1 q2 rest. s = q1 # v @ q2 # rest \<and> isQuote q1 \<and> isQuote q2 \<and> v \<noteq> [] \<and>
           (\<forall>c\<in>set v. \<not> isQuote c) \<and> n = length v + 2"
proof (cases s)
  case Nil
  with assms show ?thesis by (simp add: matchQuoted_def)
next
  case (Cons q t)
  let ?w = "takeWhile (\<lambda>c. \<not> isQuote c) t"
  have q: "isQuote q"
    using assms Cons by (cases "isQuote q") (simp_all add: matchQuoted_def)
  have m: "(case drop (length ?w) t of [] \<Rightarrow> None
             | q' # _ \<Rightarrow> if ?w \<noteq> [] \<and> isQuote q' then Some (?w, length ?w + 2) else None)
           = Some (v, n)"
    using assms Cons q by (simp add: matchQuoted_def Let_def)
  show ?thesis
  proof (cases "drop (length ?w) t")
    case Nil
    with m show ?thesis by simp
  next
    case (Cons q' rest)
    with m have c: "?w \<noteq> [] \<and> isQuote q'"
      by (cases "?w \<noteq> [] \<and> isQuote q'") simp_all
    with m Cons have vw: "v = ?w" "n = length ?w + 2" by auto
    have "t = take (length ?w) t @ drop (length ?w) t" by simp
    moreover have "take (length ?w) t = ?w"
      by (rule takeWhile_eq_take [symmetric])
    ultimately have t: "t = ?w @ q' # rest" using Cons by simp
    have "\<forall>c\<in>set ?w. \<not> isQuote c"
      by (auto dest: set_takeWhileD)
    with t c vw q \<open>s = q # t\<close> show ?thesis by blast
  qed
qed

lemma upper_srcset: "map asciiUpper (js ''srcset='') = js ''SRCSET=''"
  by (simp add: asciiUpper_def)

lemma length_srcset_name: "map asciiUpper name = js ''SRCSET='' \<Longrightarrow> length name = 7"
proof -
  assume "map asciiUpper name = js ''SRCSET=''"
  then have "length (map asciiUpper name) = 7" by simp
  then show ?thesis by (simp only: length_map)
qed

lemma matchSrcset_token:
  assumes "srcsetToken t v"
  shows "matchSrcset (t @ rest) = Some (v, length t)"
proof -
  from assms obtain name q1 q2 where t: "t = name @ q1 # v @ [q2]"
    and name: "map asciiUpper name = js ''SRCSET=''"
    and q: "isQuote q1" "isQuote q2" "v \<noteq> []" "\<forall>c\<in>set v. \<not> isQuote c"
    unfolding srcsetToken_def by blast
  have len: "length name = 7" by (rule length_srcset_name [OF name])
  have "t @ rest = name @ (q1 # v @ q2 # rest) \<and> map asciiUpper name = map asciiUpper (js ''srcset='')"
    by (simp only: t name upper_srcset) simp
  then have cp: "ciPrefix (js ''srcset='') (t @ rest)"
    unfolding ciPrefix_iff by blast
  have d: "drop 7 (t @ rest) = q1 # v @ q2 # rest"
    using len by (simp add: t)
  have mq: "matchQuoted (q1 # v @ q2 # rest) = Some (v, length v + 2)"
    by (rule matchQuoted_token [OF q])
  have "matchSrcset (t @ rest) = Some (v, 7 + (length v + 2))"
    unfolding matchSrcset_def by (simp only: cp if_True d mq option.case prod.case)
  moreover have "length t = 7 + (length v + 2)" using len by (simp add: t)
  ultimately show ?thesis by simp
qed

lemma matchSrcset_shape:
  assumes "matchSrcset s = Some (v, n)"
  shows "0 < n \<and> n \<le> length s \<and> srcsetToken (take n s) v"
proof -
  have cp: "ciPrefix (js ''srcset='') s"
    using assms by (cases "ciPrefix (js ''srcset='') s") (simp_all add: matchSrcset_def)
  then obtain name rest0 where s: "s = name @ rest0"
    and name: "map asciiUpper name = js ''SRCSET=''"
    unfolding ciPrefix_iff upper_srcset by blast
  have len: "length name = 7" by (rule length_srcset_name [OF name])
  have d: "drop 7 s = rest0" using len by (simp add: s)
  have "(case matchQuoted rest0 of None \<Rightarrow> None | Some (srcset, k) \<Rightarrow> Some (srcset, 7 + k))
        = Some (v, n)"
    using assms cp d by (simp add: matchSrcset_def)
  then obtain k where mq: "matchQuoted rest0 = Some (v, k)" and n: "n = 7 + k"
    by (cases "matchQuoted rest0") auto
  from matchQuoted_shape [OF mq] obtain q1 q2 rest where r: "rest0 = q1 # v @ q2 # rest"
    and q: "isQuote q1" "isQuote q2" "v \<noteq> []" "\<forall>c\<in>set v. \<not> isQuote c"
    and k: "k = length v + 2" by blast
  have tk: "take n s = name @ q1 # v @ [q2]"
    using len by (simp add: s r n k)
  have "srcsetToken (take n s) v"
    unfolding srcsetToken_def tk using name q by blast
  moreover have "n \<le> length s" using len by (simp add: s r n k)
  moreover have "0 < n" by (simp add: n k)
  ultimately show ?thesis by blast
qed

lemma srcsetSpec_replacer: "srcsetReplacer b t v = srcsetSpec b t v"
  using srcsetReplacer_candidates [of b t v] by (simp add: srcsetSpec_def)

text \<open>
  C6, as amended. The second pass of \<open>rewriteHtml\<close> is the scan, over the document that
  the attribute pass leaves, whose tokens are the \<^verbatim>\<open>srcset\<close> attributes above. Every
  token the scan meets is replaced by \<^verbatim>\<open>srcset="\<close>, its candidates joined by a comma and
  a space, and \<^verbatim>\<open>"\<close>: the value is cut at its commas, each piece is trimmed and split
  at white space, the first part is resolved through \<open>proxyUrl\<close> and the second part, the
  descriptor, follows unchanged after one space. The rewritten list has as many commas
  as the value. The output of the scan is what \<open>rewriteHtml\<close> hands to the injection of
  the fix script.
\<close>

theorem srcset_pass_scan:
  "(scan srcsetToken (srcsetSpec b) (replaceAll matchAttr (attrReplacer b) html) out \<longleftrightarrow>
      out = rewriteReferences html b) \<and>
   (scan srcsetToken (srcsetSpec b) (replaceAll matchAttr (attrReplacer b) html) out \<longrightarrow>
      rewriteHtml html b = injectFixScript out) \<and>
   commas (join (js '', '') (map (candidateSpec b) (splitOn 44 v))) = commas v \<and>
   length (splitOn 44 v) = Suc (commas v)"
proof -
  have 1: "scan srcsetToken (srcsetSpec b) (replaceAll matchAttr (attrReplacer b) html) out \<longleftrightarrow>
      out = rewriteReferences html b"
    unfolding rewriteReferences_def
    by (rule scan_replaceAll)
       (simp_all add: matchSrcset_shape matchSrcset_token srcsetSpec_replacer)
  then have 2: "scan srcsetToken (srcsetSpec b) (replaceAll matchAttr (attrReplacer b) html) out \<longrightarrow>
      rewriteHtml html b = injectFixScript out"
    by (simp add: rewriteHtml_def)
  from 1 2 srcsetReplacer_candidates [of b "[]" v] show ?thesis by blast
qed

theorem srcset_pass_scan_witness:
  "srcsetToken (js ''srcset=\"a.png 1x, b.png 2x\"'') (js ''a.png 1x, b.png 2x'') \<and>
   srcsetSpec (js ''https://e.com'') (js ''srcset=\"a.png 1x, b.png 2x\"'') (js ''a.png 1x, b.png 2x'') =
     js ''srcset=\"https://tv-proxy.shariflii.workers.dev/?url=https%3A%2F%2Fe.com%2Fa.png 1x, https://tv-proxy.shariflii.workers.dev/?url=https%3A%2F%2Fe.com%2Fb.png 2x\"'' \<and>
   scan srcsetToken (srcsetSpec (js ''https://e.com''))
     (replaceAll matchAttr (attrReplacer (js ''https://e.com'')) (js ''<img srcset=\"a.png 1x, b.png 2x\">''))
     (js ''<img srcset=\"https://tv-proxy.shariflii.workers.dev/?url=https%3A%2F%2Fe.com%2Fa.png 1x, https://tv-proxy.shariflii.workers.dev/?url=https%3A%2F%2Fe.com%2Fb.png 2x\">'') \<and>
   rewriteHtml (js ''<img srcset=\"a.png 1x, b.png 2x\">'') (js ''https://e.com'') =
     js ''<img srcset=\"https://tv-proxy.shariflii.workers.dev/?url=https%3A%2F%2Fe.com%2Fa.png 1x, https://tv-proxy.shariflii.workers.dev/?url=https%3A%2F%2Fe.com%2Fb.png 2x\">'' \<and>
   commas (js ''a.png 1x, b.png 2x'') = 1"
proof -
  let ?b = "js ''https://e.com''"
  let ?doc = "js ''<img srcset=\"a.png 1x, b.png 2x\">''"
  let ?out = "js ''<img srcset=\"https://tv-proxy.shariflii.workers.dev/?url=https%3A%2F%2Fe.com%2Fa.png 1x, https://tv-proxy.shariflii.workers.dev/?url=https%3A%2F%2Fe.com%2Fb.png 2x\">''"
  have t: "srcsetToken (js ''srcset=\"a.png 1x, b.png 2x\"'') (js ''a.png 1x, b.png 2x'')"
    unfolding srcsetToken_def
    by (intro exI [of _ "js ''srcset=''"] exI [of _ "34"])
       (simp add: asciiUpper_def isQuote_def)
  have c: "srcsetSpec ?b (js ''srcset=\"a.png 1x, b.png 2x\"'') (js ''a.png 1x, b.png 2x'') =
     js ''srcset=\"https://tv-proxy.shariflii.workers.dev/?url=https%3A%2F%2Fe.com%2Fa.png 1x, https://tv-proxy.shariflii.workers.dev/?url=https%3A%2F%2Fe.com%2Fb.png 2x\"''"
    by (simp add: srcsetSpec_def candidateSpec_def eval_simps)
  have r: "rewriteReferences ?doc ?b = ?out"
    by (simp add: eval_simps)
  have i: "injectFixScript ?out = ?out"
    by (simp add: injectFixScript_def)
  note th = srcset_pass_scan [of ?b ?doc ?out "js ''a.png 1x, b.png 2x''"]
  from th r have s: "scan srcsetToken (srcsetSpec ?b) (replaceAll matchAttr (attrReplacer ?b) ?doc) ?out"
    by (simp only:)
  from th s i have h: "rewriteHtml ?doc ?b = ?out" by (simp only:)
  have n: "commas (js ''a.png 1x, b.png 2x'') = 1" by (simp add: commas_def)
  from t c s h n show ?thesis by (intro conjI)
qed

text \<open>
  A \<^verbatim>\<open>srcset\<close> value that contains a quote character is not rewritten as a whole:
  the match ends at the inner quote, only the text before it is taken as the value, and
  the rest of the attribute stays in the markup.
\<close>

theorem srcset_inner_quote_counterexample:
  "rewriteHtml (js ''<img srcset=\"a'' @ [39] @ js ''b.png 1x, c.png 2x\">'') (js ''https://e.com'') =
     js ''<img srcset=\"https://tv-proxy.shariflii.workers.dev/?url=https%3A%2F%2Fe.com%2Fa\"b.png 1x, c.png 2x\">'' \<and>
   rewriteHtml (js ''<img srcset=\"a'' @ [39] @ js ''b.png 1x, c.png 2x\">'') (js ''https://e.com'') \<noteq>
     js ''<img '' @
     srcsetSpec (js ''https://e.com'') [] (js ''a'' @ [39] @ js ''b.png 1x, c.png 2x'') @ js ''>''"
proof -
  have 1: "rewriteHtml (js ''<img srcset=\"a'' @ [39] @ js ''b.png 1x, c.png 2x\">'') (js ''https://e.com'') =
     js ''<img srcset=\"https://tv-proxy.shariflii.workers.dev/?url=https%3A%2F%2Fe.com%2Fa\"b.png 1x, c.png 2x\">''"
    by (simp add: eval_simps)
  have 2: "srcsetSpec (js ''https://e.com'') [] (js ''a'' @ [39] @ js ''b.png 1x, c.png 2x'') =
     js ''srcset=\"https://tv-proxy.shariflii.workers.dev/?url=https%3A%2F%2Fe.com%2Fa'' @ [39] @
     js ''b.png 1x, https://tv-proxy.shariflii.workers.dev/?url=https%3A%2F%2Fe.com%2Fc.png 2x\"''"
    by (simp add: srcsetSpec_def candidateSpec_def eval_simps)
  have 3: "rewriteHtml (js ''<img srcset=\"a'' @ [39] @ js ''b.png 1x, c.png 2x\">'') (js ''https://e.com'') \<noteq>
     js ''<img '' @
     srcsetSpec (js ''https://e.com'') [] (js ''a'' @ [39] @ js ''b.png 1x, c.png 2x'') @ js ''>''"
    unfolding 1 2 by simp
  from 1 3 show ?thesis by (rule conjI)
qed

lemma srcset_in_document:
  "rewriteHtml (js ''<img srcset=\"a.png 1x, b.png 2x\">'') (js ''https://e.com'') =
     js ''<img srcset=\"https://tv-proxy.shariflii.workers.dev/?url=https%3A%2F%2Fe.com%2Fa.png 1x, https://tv-proxy.shariflii.workers.dev/?url=https%3A%2F%2Fe.com%2Fb.png 2x\">''"
  by (simp add: eval_simps)

section \<open>Properties of the fix script injection\<close>

lemma includesStr_length: "includesStr h p \<Longrightarrow> length p \<le> length h"
  by (induction h) (auto dest: prefix_length_le)

lemma replaceFirst_first:
  assumes "p \<noteq> []" and "includesStr h p"
  shows "\<exists>pre post. h = pre @ p @ post \<and> \<not> includesStr (pre @ butlast p) p \<and>
           replaceFirst h p r = pre @ r @ post"
  using assms(2)
proof (induction h)
  case Nil
  with assms(1) show ?case by simp
next
  case (Cons c cs)
  show ?case
  proof (cases "prefix p (c # cs)")
    case True
    then obtain post where post: "c # cs = p @ post" by (auto simp: prefix_def)
    have "\<not> includesStr (butlast p) p"
    proof
      assume "includesStr (butlast p) p"
      then have "length p \<le> length (butlast p)" by (rule includesStr_length)
      then have "length p \<le> length p - 1" by (simp only: length_butlast)
      moreover have "0 < length p" using assms(1) by simp
      ultimately show False by linarith
    qed
    moreover have "replaceFirst (c # cs) p r = r @ drop (length p) (c # cs)"
      using True by simp
    moreover have "drop (length p) (c # cs) = post"
      unfolding post by simp
    ultimately have "c # cs = [] @ p @ post \<and> \<not> includesStr ([] @ butlast p) p \<and>
        replaceFirst (c # cs) p r = [] @ r @ post"
      using post by (simp only: append_Nil simp_thms)
    then show ?thesis by blast
  next
    case False
    with Cons.prems have "includesStr cs p" by simp
    then obtain pre post where ih: "cs = pre @ p @ post" "\<not> includesStr (pre @ butlast p) p"
      "replaceFirst cs p r = pre @ r @ post"
      using Cons.IH by blast
    have "prefix (c # pre @ butlast p) (c # cs)"
      unfolding ih(1) using assms(1)
      by (simp add: prefix_def) (metis append_butlast_last_id append_assoc)
    with False have "\<not> prefix p (c # pre @ butlast p)"
      using prefix_order.trans by blast
    with ih False show ?thesis
      by (intro exI [of _ "c # pre"] exI [of _ post]) simp
  qed
qed

lemma injectFixScript_cases:
  "(includesStr d (js ''<head>'') \<longrightarrow>
      (\<exists>pre post. d = pre @ js ''<head>'' @ post \<and>
         \<not> includesStr (pre @ js ''<head'') (js ''<head>'') \<and>
         injectFixScript d = pre @ js ''<head>'' @ fixScript @ post)) \<and>
   (\<not> includesStr d (js ''<head>'') \<and> includesStr d (js ''<HEAD>'') \<longrightarrow>
      (\<exists>pre post. d = pre @ js ''<HEAD>'' @ post \<and>
         \<not> includesStr (pre @ js ''<HEAD'') (js ''<HEAD>'') \<and>
         injectFixScript d = pre @ js ''<HEAD>'' @ fixScript @ post)) \<and>
   (\<not> includesStr d (js ''<head>'') \<and> \<not> includesStr d (js ''<HEAD>'') \<longrightarrow>
      injectFixScript d = d)"
proof -
  have lc: "js ''<head>'' \<noteq> []" and uc: "js ''<HEAD>'' \<noteq> []" by simp_all
  have bl: "butlast (js ''<head>'') = js ''<head''" and bu: "butlast (js ''<HEAD>'') = js ''<HEAD''"
    by simp_all
  have 1: "\<exists>pre post. d = pre @ js ''<head>'' @ post \<and>
         \<not> includesStr (pre @ js ''<head'') (js ''<head>'') \<and>
         injectFixScript d = pre @ js ''<head>'' @ fixScript @ post"
    if a: "includesStr d (js ''<head>'')"
  proof -
    from replaceFirst_first [OF lc a, of "js ''<head>'' @ fixScript"]
    obtain pre post where "d = pre @ js ''<head>'' @ post"
      "\<not> includesStr (pre @ butlast (js ''<head>'')) (js ''<head>'')"
      "replaceFirst d (js ''<head>'') (js ''<head>'' @ fixScript) = pre @ (js ''<head>'' @ fixScript) @ post"
      by blast
    moreover have "injectFixScript d = replaceFirst d (js ''<head>'') (js ''<head>'' @ fixScript)"
      using a by (simp only: injectFixScript_def if_True)
    ultimately show ?thesis unfolding bl by (intro exI [of _ pre] exI [of _ post]) simp
  qed
  have 2: "\<exists>pre post. d = pre @ js ''<HEAD>'' @ post \<and>
         \<not> includesStr (pre @ js ''<HEAD'') (js ''<HEAD>'') \<and>
         injectFixScript d = pre @ js ''<HEAD>'' @ fixScript @ post"
    if n: "\<not> includesStr d (js ''<head>'')" and a: "includesStr d (js ''<HEAD>'')"
  proof -
    from replaceFirst_first [OF uc a, of "js ''<HEAD>'' @ fixScript"]
    obtain pre post where "d = pre @ js ''<HEAD>'' @ post"
      "\<not> includesStr (pre @ butlast (js ''<HEAD>'')) (js ''<HEAD>'')"
      "replaceFirst d (js ''<HEAD>'') (js ''<HEAD>'' @ fixScript) = pre @ (js ''<HEAD>'' @ fixScript) @ post"
      by blast
    moreover have "injectFixScript d = replaceFirst d (js ''<HEAD>'') (js ''<HEAD>'' @ fixScript)"
      using n a by (simp only: injectFixScript_def if_True if_False)
    ultimately show ?thesis unfolding bu by (intro exI [of _ pre] exI [of _ post]) simp
  qed
  have 3: "injectFixScript d = d"
    if "\<not> includesStr d (js ''<head>'')" and "\<not> includesStr d (js ''<HEAD>'')"
    using that by (simp only: injectFixScript_def if_False)
  from 1 2 3 show ?thesis by blast
qed

lemma injectFixScript_once:
  "injectFixScript d = d \<or>
   (\<exists>pre post. d = pre @ post \<and> injectFixScript d = pre @ fixScript @ post)"
proof -
  have "\<exists>pre' post. d = pre' @ post \<and> injectFixScript d = pre' @ fixScript @ post"
    if "d = pre @ t @ post" "injectFixScript d = pre @ t @ fixScript @ post" for pre t post
    using that by (intro exI [of _ "pre @ t"] exI [of _ post]) simp
  then show ?thesis using injectFixScript_cases [of d] by blast
qed

text \<open>
  C10. \<open>rewriteHtml\<close> ends with the injection of the fix script into the document \<open>d\<close>
  that the two rewriting passes produce. The script is inserted at most once. When \<open>d\<close>
  contains the exact string \<^verbatim>\<open><head>\<close>, the script follows its first occurrence and the
  \<^verbatim>\<open><HEAD>\<close> branch is not taken; when \<open>d\<close> does not contain it but contains the exact
  string \<^verbatim>\<open><HEAD>\<close>, the script follows the first occurrence of that; when \<open>d\<close>
  contains neither, as with \<^verbatim>\<open><head lang="en">\<close> or \<^verbatim>\<open><Head>\<close>, the result is \<open>d\<close> itself.
\<close>

theorem fix_script_injected_at_most_once:
  fixes html b :: jsstring
  defines "d \<equiv> rewriteReferences html b"
  shows "(includesStr d (js ''<head>'') \<longrightarrow>
      (\<exists>pre post. d = pre @ js ''<head>'' @ post \<and>
         \<not> includesStr (pre @ js ''<head'') (js ''<head>'') \<and>
         rewriteHtml html b = pre @ js ''<head>'' @ fixScript @ post)) \<and>
   (\<not> includesStr d (js ''<head>'') \<and> includesStr d (js ''<HEAD>'') \<longrightarrow>
      (\<exists>pre post. d = pre @ js ''<HEAD>'' @ post \<and>
         \<not> includesStr (pre @ js ''<HEAD'') (js ''<HEAD>'') \<and>
         rewriteHtml html b = pre @ js ''<HEAD>'' @ fixScript @ post)) \<and>
   (\<not> includesStr d (js ''<head>'') \<and> \<not> includesStr d (js ''<HEAD>'') \<longrightarrow>
      rewriteHtml html b = d) \<and>
   (rewriteHtml html b = d \<or>
      (\<exists>pre post. d = pre @ post \<and> rewriteHtml html b = pre @ fixScript @ post))"
proof -
  have r: "rewriteHtml html b = injectFixScript d"
    by (simp add: rewriteHtml_def d_def)
  show ?thesis
    unfolding r using injectFixScript_cases [of d] injectFixScript_once [of d] by blast
qed

theorem fix_script_injected_at_most_once_witness:
  "\<not> includesStr (rewriteReferences (js ''<html><head lang=\"en\"><Head></html>'') (js ''https://e.com''))
       (js ''<head>'') \<and>
   \<not> includesStr (rewriteReferences (js ''<html><head lang=\"en\"><Head></html>'') (js ''https://e.com''))
       (js ''<HEAD>'') \<and>
   rewriteHtml (js ''<html><head lang=\"en\"><Head></html>'') (js ''https://e.com'') =
     js ''<html><head lang=\"en\"><Head></html>'' \<and>
   includesStr (rewriteReferences (js ''<head><HEAD><head>'') (js ''https://e.com'')) (js ''<head>'') \<and>
   rewriteHtml (js ''<head><HEAD><head>'') (js ''https://e.com'') =
     js ''<head>'' @ fixScript @ js ''<HEAD><head>'' \<and>
   \<not> includesStr (rewriteReferences (js ''<HTML><HEAD><HEAD>'') (js ''https://e.com'')) (js ''<head>'') \<and>
   includesStr (rewriteReferences (js ''<HTML><HEAD><HEAD>'') (js ''https://e.com'')) (js ''<HEAD>'') \<and>
   rewriteHtml (js ''<HTML><HEAD><HEAD>'') (js ''https://e.com'') =
     js ''<HTML><HEAD>'' @ fixScript @ js ''<HEAD>''"
proof -
  have d1: "rewriteReferences (js ''<html><head lang=\"en\"><Head></html>'') (js ''https://e.com'') =
      js ''<html><head lang=\"en\"><Head></html>''"
    by (simp add: eval_simps)
  have n1: "\<not> includesStr (js ''<html><head lang=\"en\"><Head></html>'') (js ''<head>'')"
    and n2: "\<not> includesStr (js ''<html><head lang=\"en\"><Head></html>'') (js ''<HEAD>'')"
    by simp_all
  from fix_script_injected_at_most_once
    [of "js ''<html><head lang=\"en\"><Head></html>''" "js ''https://e.com''"]
  have 1: "rewriteHtml (js ''<html><head lang=\"en\"><Head></html>'') (js ''https://e.com'') =
      js ''<html><head lang=\"en\"><Head></html>''"
    unfolding d1 using n1 n2 by blast
  have d2: "rewriteReferences (js ''<head><HEAD><head>'') (js ''https://e.com'') = js ''<head><HEAD><head>''"
    by (simp add: eval_simps)
  have 2: "rewriteHtml (js ''<head><HEAD><head>'') (js ''https://e.com'') =
      js ''<head>'' @ fixScript @ js ''<HEAD><head>''"
    by (simp add: eval_simps)
  have d3: "rewriteReferences (js ''<HTML><HEAD><HEAD>'') (js ''https://e.com'') = js ''<HTML><HEAD><HEAD>''"
    by (simp add: eval_simps)
  have 3: "rewriteHtml (js ''<HTML><HEAD><HEAD>'') (js ''https://e.com'') =
      js ''<HTML><HEAD>'' @ fixScript @ js ''<HEAD>''"
    by (simp add: eval_simps)
  have i2: "includesStr (js ''<head><HEAD><head>'') (js ''<head>'')" by simp
  have i3: "\<not> includesStr (js ''<HTML><HEAD><HEAD>'') (js ''<head>'') \<and>
            includesStr (js ''<HTML><HEAD><HEAD>'') (js ''<HEAD>'')" by simp
  from 1 2 3 n1 n2 i2 i3 show ?thesis
    unfolding d1 d2 d3 by blast
qed

end
